theory Spec2Isabelle
  imports Main "HOL-Library.Log_Nat"
begin

section \<open>Numbers of the host language\<close>

text \<open>
  The program is JavaScript: every number is an IEEE 754 binary64 value, and the line
  buffer is a \<^verbatim>\<open>Float32Array\<close>, whose elements are binary32 values. A finite number is
  modelled by the rational it denotes; the two infinities and NaN are separate values.
  Zero carries no sign: the code under study never divides, and \<^verbatim>\<open>===\<close> does not tell
  the two zeros apart.
\<close>

datatype jsnum = NaN | PInf | NInf | Fin rat

datatype jsval = Undefined | Number jsnum

definition pow2 :: "int \<Rightarrow> rat" where
  "pow2 e = (if 0 \<le> e then 2 ^ nat e else 1 / 2 ^ nat (- e))"

text \<open>The exponent of a positive rational: the largest \<open>e\<close> with \<open>2^e \<le> x\<close>.\<close>

definition ilog2 :: "rat \<Rightarrow> int" where
  "ilog2 x =
     (let (n, d) = quotient_of x;
          e = bitlen n - bitlen d
      in if pow2 e \<le> x then e else e - 1)"

definition round_half_even :: "rat \<Rightarrow> int" where
  "round_half_even q =
     (let f = \<lfloor>q\<rfloor>; r = q - of_int f
      in if r < 1 / 2 then f
         else if 1 / 2 < r then f + 1
         else if even f then f else f + 1)"

text \<open>
  Rounding to nearest, ties to even, into a binary format with \<open>p\<close> significant bits and
  exponents from \<open>emin\<close> to \<open>emax\<close>. The result is a multiple \<open>m * u\<close> of the spacing
  \<open>u\<close> of the binade of \<open>x\<close>; below \<open>2^emin\<close> the spacing stays that of the smallest
  normal binade (subnormals). A result of magnitude \<open>2^(emax+1)\<close> or more, which is
  \<open>emax < e\<close> or \<open>\<bar>m\<bar> = 2^p\<close> at \<open>e = emax\<close>, is an infinity.
\<close>

definition round_binary :: "nat \<Rightarrow> int \<Rightarrow> int \<Rightarrow> rat \<Rightarrow> jsnum" where
  "round_binary p emin emax x =
     (if x = 0 then Fin 0
      else let e = max (ilog2 \<bar>x\<bar>) emin;
               u = pow2 (e - int p + 1);
               m = round_half_even (x / u)
           in if emax < e \<or> (e = emax \<and> \<bar>m\<bar> = 2 ^ p)
              then (if 0 < x then PInf else NInf)
              else Fin (of_int m * u))"

definition to_double :: "rat \<Rightarrow> jsnum" where
  "to_double x = round_binary 53 (- 1022) 1023 x"

text \<open>What storing a number into a \<^verbatim>\<open>Float32Array\<close> element keeps of it.\<close>

fun fround :: "jsnum \<Rightarrow> jsnum" where
  "fround (Fin x) = round_binary 24 (- 126) 127 x"
| "fround v = v"

definition is_f32 :: "jsnum \<Rightarrow> bool" where
  "is_f32 v = (fround v = v)"

fun is_zero :: "jsnum \<Rightarrow> bool" where
  "is_zero (Fin x) = (x = 0)"
| "is_zero v = False"

fun is_neg :: "jsnum \<Rightarrow> bool" where
  "is_neg (Fin x) = (x < 0)"
| "is_neg NInf = True"
| "is_neg v = False"

text \<open>The operators \<^verbatim>\<open>+\<close> and \<^verbatim>\<open>*\<close> on two numbers.\<close>

fun js_add :: "jsnum \<Rightarrow> jsnum \<Rightarrow> jsnum" where
  "js_add (Fin x) (Fin y) = to_double (x + y)"
| "js_add NaN w = NaN"
| "js_add v NaN = NaN"
| "js_add PInf NInf = NaN"
| "js_add NInf PInf = NaN"
| "js_add (Fin x) w = w"
| "js_add v w = v"

fun js_mul :: "jsnum \<Rightarrow> jsnum \<Rightarrow> jsnum" where
  "js_mul (Fin x) (Fin y) = to_double (x * y)"
| "js_mul NaN w = NaN"
| "js_mul v NaN = NaN"
| "js_mul v w =
     (if is_zero v \<or> is_zero w then NaN
      else if is_neg v = is_neg w then PInf else NInf)"

text \<open>\<^verbatim>\<open>ToNumber\<close>, applied to whatever is assigned to a typed-array element.\<close>

fun ToNumber :: "jsval \<Rightarrow> jsnum" where
  "ToNumber Undefined = NaN"
| "ToNumber (Number v) = v"

text \<open>
  A loop counter is a number with an integral value; the model counts in \<open>int\<close>, which
  agrees with the program below \<open>2^53\<close>, far above any typed-array length.
\<close>

definition js_of_int :: "int \<Rightarrow> jsnum" where
  "js_of_int i = Fin (of_int i)"

section \<open>Float32Array elements\<close>

text \<open>
  Reading \<^verbatim>\<open>a[k]\<close> outside \<open>0 \<le> k < a.length\<close> gives \<^verbatim>\<open>undefined\<close>; writing there
  is ignored, without an exception and without growing the array. A write inside the
  range converts the value to a number and rounds it to binary32. An index is an
  integer, as the point indices and loop counters of the program are.
\<close>

definition f32_get :: "jsnum list \<Rightarrow> int \<Rightarrow> jsval" where
  "f32_get arr k =
     (if 0 \<le> k \<and> k < int (length arr) then Number (arr ! nat k) else Undefined)"

definition f32_set :: "jsnum list \<Rightarrow> int \<Rightarrow> jsval \<Rightarrow> jsnum list" where
  "f32_set arr k v =
     (if 0 \<le> k \<and> k < int (length arr) then arr[nat k := fround (ToNumber v)] else arr)"

section \<open>ColorRGBA and WebglLine\<close>

record ColorRGBA =
  col_r :: jsnum
  col_g :: jsnum
  col_b :: jsnum
  col_a :: jsnum

record WebglLine =
  scaleX :: jsnum
  scaleY :: jsnum
  offsetX :: jsnum
  offsetY :: jsnum
  loop :: bool
  vbuffer :: nat
  coord :: int
  visible :: bool
  intensity :: jsnum
  xy :: "jsnum list"
  numPoints :: nat
  color :: ColorRGBA
  webglNumPoints :: nat

text \<open>
  The constructor of \<^verbatim>\<open>WebglBaseLine\<close> followed by that of \<^verbatim>\<open>WebglLine\<close>; a fresh
  \<^verbatim>\<open>Float32Array\<close> holds zeros.
\<close>

definition WebglLine_new :: "ColorRGBA \<Rightarrow> nat \<Rightarrow> WebglLine" where
  "WebglLine_new c n =
     \<lparr>scaleX = Fin 1, scaleY = Fin 1, offsetX = Fin 0, offsetY = Fin 0, loop = False,
      vbuffer = 0, coord = 0, visible = True, intensity = Fin 1,
      xy = replicate (2 * n) (Fin 0), numPoints = n, color = c, webglNumPoints = n\<rparr>"

definition setX :: "WebglLine \<Rightarrow> int \<Rightarrow> jsval \<Rightarrow> WebglLine" where
  "setX l index x = l\<lparr>xy := f32_set (xy l) (index * 2) x\<rparr>"

definition setY :: "WebglLine \<Rightarrow> int \<Rightarrow> jsval \<Rightarrow> WebglLine" where
  "setY l index y = l\<lparr>xy := f32_set (xy l) (index * 2 + 1) y\<rparr>"

definition getX :: "WebglLine \<Rightarrow> int \<Rightarrow> jsval" where
  "getX l index = f32_get (xy l) (index * 2)"

definition getY :: "WebglLine \<Rightarrow> int \<Rightarrow> jsval" where
  "getY l index = f32_get (xy l) (index * 2 + 1)"

text \<open>The \<^verbatim>\<open>for\<close> loop of \<^verbatim>\<open>lineSpaceX\<close>, from counter value \<open>i\<close> on.\<close>

function lineSpaceX_loop :: "WebglLine \<Rightarrow> jsnum \<Rightarrow> jsnum \<Rightarrow> int \<Rightarrow> WebglLine" where
  "lineSpaceX_loop l start stepSize i =
     (if i < int (numPoints l)
      then lineSpaceX_loop
             (setX l i (Number (js_add start (js_mul stepSize (js_of_int i)))))
             start stepSize (i + 1)
      else l)"
  by pat_completeness auto
termination
  by (relation "measure (\<lambda>(l, start, stepSize, i). nat (int (numPoints l) - i))")
    (auto simp: setX_def)

definition lineSpaceX :: "WebglLine \<Rightarrow> jsnum \<Rightarrow> jsnum \<Rightarrow> WebglLine" where
  "lineSpaceX l start stepSize = lineSpaceX_loop l start stepSize 0"

function constY_loop :: "WebglLine \<Rightarrow> jsval \<Rightarrow> int \<Rightarrow> WebglLine" where
  "constY_loop l c i =
     (if i < int (numPoints l) then constY_loop (setY l i c) c (i + 1) else l)"
  by pat_completeness auto
termination
  by (relation "measure (\<lambda>(l, c, i). nat (int (numPoints l) - i))")
    (auto simp: setY_def)

definition constY :: "WebglLine \<Rightarrow> jsval \<Rightarrow> WebglLine" where
  "constY l c = constY_loop l c 0"

text \<open>
  \<^verbatim>\<open>shiftAdd\<close>: \<open>data\<close> is the content of the array passed in, \<^verbatim>\<open>data[i]\<close> is read
  inside its bounds only. The first loop moves the tail of the y values to the front, the
  second writes the new values behind it.
\<close>

function shiftAdd_move :: "WebglLine \<Rightarrow> int \<Rightarrow> int \<Rightarrow> WebglLine" where
  "shiftAdd_move l shiftSize i =
     (if i < int (numPoints l) - shiftSize
      then shiftAdd_move (setY l i (getY l (i + shiftSize))) shiftSize (i + 1)
      else l)"
  by pat_completeness auto
termination
  by (relation "measure (\<lambda>(l, shiftSize, i). nat (int (numPoints l) - shiftSize - i))")
    (auto simp: setY_def)

function shiftAdd_fill :: "WebglLine \<Rightarrow> jsnum list \<Rightarrow> int \<Rightarrow> int \<Rightarrow> WebglLine" where
  "shiftAdd_fill l data shiftSize i =
     (if i < shiftSize
      then shiftAdd_fill
             (setY l (i + int (numPoints l) - shiftSize) (f32_get data i))
             data shiftSize (i + 1)
      else l)"
  by pat_completeness auto
termination
  by (relation "measure (\<lambda>(l, data, shiftSize, i). nat (shiftSize - i))") auto

definition shiftAdd :: "WebglLine \<Rightarrow> jsnum list \<Rightarrow> WebglLine" where
  "shiftAdd l data =
     (let shiftSize = int (length data)
      in shiftAdd_fill (shiftAdd_move l shiftSize 0) data shiftSize 0)"

text \<open>
  What the constructor establishes and the operations keep: the buffer has two elements
  for each point, and its elements are binary32 values.
\<close>

definition line_ok :: "WebglLine \<Rightarrow> bool" where
  "line_ok l = (length (xy l) = 2 * numPoints l \<and> list_all is_f32 (xy l))"

section \<open>The drawing backend and WebGLPlot\<close>

text \<open>
  The WebGL context is outside the repository. It is modelled by what the program does to
  it: the sequence of calls made, in order, with their arguments. Two of its answers are
  used by the program: \<^verbatim>\<open>createBuffer\<close> returns a buffer not handed out before (buffers
  are numbered from 1, and \<open>0\<close> is the initial \<^verbatim>\<open>_vbuffer\<close> of a line), and
  \<^verbatim>\<open>getAttribLocation\<close> returns the index the linked program gives to the attribute.
  \<^verbatim>\<open>getUniformLocation\<close> returns a location object, which stands for the program and
  the name it was asked with.
\<close>

datatype gl_enum = ARRAY_BUFFER | STREAM_DRAW | LINE_LOOP | LINE_STRIP | FLOAT

datatype uniform_location = UniformLocation nat string

datatype gl_call =
    UseProgram nat
  | GetUniformLocation nat string
  | UniformMatrix2fv uniform_location bool "jsnum list"
  | Uniform2fv uniform_location "jsnum list"
  | Uniform4fv uniform_location "jsnum list"
  | BufferData gl_enum "jsnum list" gl_enum
  | DrawArrays gl_enum int nat
  | CreateBuffer
  | BindBuffer gl_enum nat
  | GetAttribLocation nat string
  | VertexAttribPointer int int gl_enum bool int int
  | EnableVertexAttribArray int

record WebGLContext =
  calls :: "gl_call list"
  buffers :: nat
  attribLocation :: "nat \<Rightarrow> string \<Rightarrow> int"

text \<open>
  \<^verbatim>\<open>_lines\<close> holds references: a line stays the caller's object after \<^verbatim>\<open>addLine\<close>, and
  the data producers write into it between frames. A reference is an address in the
  store \<open>heap\<close>, where every address holds a line.
\<close>

record WebGLPlot =
  debug :: bool
  webgl :: WebGLContext
  lines :: "nat list"
  gScaleX :: jsnum
  gScaleY :: jsnum
  gXYratio :: jsnum
  gOffsetX :: jsnum
  gOffsetY :: jsnum
  progThinLine :: nat

record state =
  heap :: "nat \<Rightarrow> WebglLine"
  wglp :: WebGLPlot

text \<open>\<^verbatim>\<open>new Float32Array([...])\<close> of an array of numbers.\<close>

definition Float32Array_of :: "jsnum list \<Rightarrow> jsnum list" where
  "Float32Array_of vs = map fround vs"

definition gl_do :: "gl_call list \<Rightarrow> state \<Rightarrow> state" where
  "gl_do cs s =
     s\<lparr>wglp := (wglp s)\<lparr>webgl := (webgl (wglp s))\<lparr>calls := calls (webgl (wglp s)) @ cs\<rparr>\<rparr>\<rparr>"

text \<open>The calls made for one visible line: the body of the \<^verbatim>\<open>if\<close> in \<^verbatim>\<open>update\<close>.\<close>

definition draw_calls :: "WebGLPlot \<Rightarrow> WebglLine \<Rightarrow> gl_call list" where
  "draw_calls this line =
     (let prog = progThinLine this;
          uscale = UniformLocation prog ''uscale'';
          uoffset = UniformLocation prog ''uoffset'';
          uColor = UniformLocation prog ''uColor''
      in [UseProgram prog,
          GetUniformLocation prog ''uscale'',
          UniformMatrix2fv uscale False
            (Float32Array_of
              [js_mul (scaleX line) (gScaleX this),
               Fin 0,
               Fin 0,
               js_mul (js_mul (scaleY line) (gScaleY this)) (gXYratio this)]),
          GetUniformLocation prog ''uoffset'',
          Uniform2fv uoffset
            (Float32Array_of
              [js_add (offsetX line) (gOffsetX this), js_add (offsetY line) (gOffsetY this)]),
          GetUniformLocation prog ''uColor'',
          Uniform4fv uColor
            [col_r (color line), col_g (color line), col_b (color line), col_a (color line)],
          BufferData ARRAY_BUFFER (xy line) STREAM_DRAW,
          DrawArrays (if loop line then LINE_LOOP else LINE_STRIP) 0 (webglNumPoints line)])"

text \<open>The callback of \<^verbatim>\<open>forEach\<close> in \<^verbatim>\<open>update\<close>, applied to one element of \<^verbatim>\<open>_lines\<close>.\<close>

definition update_line :: "state \<Rightarrow> nat \<Rightarrow> state" where
  "update_line s ref =
     (let line = heap s ref
      in if visible line then gl_do (draw_calls (wglp s) line) s else s)"

definition update :: "state \<Rightarrow> state" where
  "update s = foldl update_line s (lines (wglp s))"

definition addLine :: "state \<Rightarrow> nat \<Rightarrow> state" where
  "addLine s ref =
     (let this = wglp s;
          gl = webgl this;
          buf = Suc (buffers gl);
          s1 = s\<lparr>heap := (heap s)(ref := (heap s ref)\<lparr>vbuffer := buf\<rparr>),
                 wglp := this\<lparr>webgl := gl\<lparr>buffers := buf\<rparr>\<rparr>\<rparr>;
          s2 = gl_do [CreateBuffer,
                      BindBuffer ARRAY_BUFFER buf,
                      BufferData ARRAY_BUFFER (xy (heap s1 ref)) STREAM_DRAW,
                      BindBuffer ARRAY_BUFFER buf,
                      GetAttribLocation (progThinLine this) ''coordinates''] s1;
          loc = attribLocation gl (progThinLine this) ''coordinates'';
          s3 = s2\<lparr>heap := (heap s2)(ref := (heap s2 ref)\<lparr>coord := loc\<rparr>)\<rparr>;
          s4 = gl_do [VertexAttribPointer loc 2 FLOAT False 0 0,
                      EnableVertexAttribArray loc] s3
      in s4\<lparr>wglp := (wglp s4)\<lparr>lines := lines (wglp s4) @ [ref]\<rparr>\<rparr>)"

definition popLine :: "state \<Rightarrow> state" where
  "popLine s = s\<lparr>wglp := (wglp s)\<lparr>lines := butlast (lines (wglp s))\<rparr>\<rparr>"

definition removeAllLines :: "state \<Rightarrow> state" where
  "removeAllLines s = s\<lparr>wglp := (wglp s)\<lparr>lines := []\<rparr>\<rparr>"

section \<open>The contract of the specification, and sample data\<close>

text \<open>
  No method of \<^verbatim>\<open>WebglLine\<close> contains a \<^verbatim>\<open>throw\<close>, and a typed-array access raises
  nothing: every call returns. The specification asks for two failures, which the
  following definitions add in front of the source's operations, for comparison with
  them: an index outside \<open>0 \<le> index < capacity\<close> is \<open>IndexOutOfRange\<close>, and more new
  values than the capacity is \<open>InvalidArgument\<close>. A call of the source that returns \<open>v\<close>
  is \<open>Inr v\<close> in that comparison.
\<close>

datatype error = IndexOutOfRange | InvalidArgument

definition spec_getX :: "WebglLine \<Rightarrow> int \<Rightarrow> error + jsval" where
  "spec_getX l index =
     (if 0 \<le> index \<and> index < int (numPoints l) then Inr (getX l index)
      else Inl IndexOutOfRange)"

definition spec_setX :: "WebglLine \<Rightarrow> int \<Rightarrow> jsval \<Rightarrow> error + WebglLine" where
  "spec_setX l index x =
     (if 0 \<le> index \<and> index < int (numPoints l) then Inr (setX l index x)
      else Inl IndexOutOfRange)"

definition spec_shiftAppend :: "WebglLine \<Rightarrow> jsnum list \<Rightarrow> error + WebglLine" where
  "spec_shiftAppend l newValues =
     (if numPoints l < length newValues then Inl InvalidArgument
      else Inr (shiftAdd l newValues))"

text \<open>
  A line of capacity 4 with x values \<open>-1, -1/2, 0, 1/2\<close> and y values \<open>1, 2, 3, 4\<close>, and
  five new values, one more than its capacity.
\<close>

definition example_overlong :: "jsnum list" where
  "example_overlong = [Fin 5, Fin 6, Fin 7, Fin 8, Fin 9]"

text \<open>
  The binary64 value nearest to 0.1, which is not a binary32 value, and five binary64
  values of which two are not binary32 values: the second is rounded when stored and
  the fourth, \<open>2^130\<close>, is above the binary32 range.
\<close>

definition double_tenth :: rat where
  "double_tenth = 3602879701896397 / 36028797018963968"

definition example_doubles :: "jsnum list" where
  "example_doubles = [Fin 5, Fin double_tenth, Fin 7, Fin (2 ^ 130), Fin 9]"

definition example_color :: ColorRGBA where
  "example_color = \<lparr>col_r = Fin (1 / 2), col_g = Fin 1, col_b = Fin 0, col_a = Fin 1\<rparr>"

definition example_line :: WebglLine where
  "example_line =
     (WebglLine_new example_color 4)
       \<lparr>xy := [Fin (- 1), Fin 1, Fin (- (1 / 2)), Fin 2, Fin 0, Fin 3, Fin (1 / 2), Fin 4]\<rparr>"

section \<open>Rounding twice is rounding once\<close>

text \<open>
  \<open>ilog2\<close> is the binary exponent, \<open>round_half_even\<close> keeps integers and is monotone, and
  a number that \<open>round_binary\<close> returns is returned unchanged when rounded again. So what
  a \<^verbatim>\<open>Float32Array\<close> holds is a fixed point of \<open>fround\<close>.
\<close>

lemma pow2_powi: "pow2 e = 2 powi e"
  by (simp add: pow2_def power_int_def power_one_over inverse_eq_divide)

lemma pow2_pos: "0 < pow2 e"
  by (simp add: pow2_powi)

lemma pow2_add: "pow2 (a + b) = pow2 a * pow2 b"
  by (simp add: pow2_powi power_int_add)

lemma pow2_nat: "pow2 (int n) = 2 ^ n"
  by (simp add: pow2_def)

lemma pow2_less: "a < b \<Longrightarrow> pow2 a < pow2 b"
  by (simp add: pow2_powi power_int_strict_increasing)

lemma pow2_le: "a \<le> b \<Longrightarrow> pow2 a \<le> pow2 b"
  by (simp add: pow2_powi power_int_increasing)

lemma pow2_less_D: "pow2 a < pow2 b \<Longrightarrow> a < b"
  using pow2_le [of b a] by (cases "a < b") auto

lemma pow2_le_D: "pow2 a \<le> pow2 b \<Longrightarrow> a \<le> b"
  using pow2_less [of b a] by (cases "a \<le> b") auto

lemma ilog2_bounds:
  assumes "0 < x"
  shows "pow2 (ilog2 x) \<le> x" and "x < pow2 (ilog2 x + 1)"
proof -
  obtain n d where q: "quotient_of x = (n, d)" by (cases "quotient_of x")
  have d: "0 < d" using quotient_of_denom_pos [OF q] .
  have x: "x = of_int n / of_int d" using quotient_of_div [OF q] .
  have n: "0 < n" using assms d by (simp add: x zero_less_divide_iff)
  have xd: "x * of_int d = of_int n" using d by (simp add: x)
  let ?e = "bitlen n - bitlen d"
  have ln: "1 \<le> bitlen n" and ld: "1 \<le> bitlen d"
    using n d by (simp_all add: bitlen_alt_def)
  have n_lo: "pow2 (bitlen n - 1) \<le> of_int n"
  proof -
    have "(2::int) ^ nat (bitlen n - 1) \<le> n" using bitlen_bounds [OF n] by simp
    then have "(of_int ((2::int) ^ nat (bitlen n - 1)) :: rat) \<le> of_int n"
      by (simp only: of_int_le_iff)
    then show ?thesis using ln by (simp add: pow2_def)
  qed
  have n_hi: "of_int n < pow2 (bitlen n)"
  proof -
    have "n < (2::int) ^ nat (bitlen n)" using bitlen_bounds [OF n] by simp
    then have "(of_int n :: rat) < of_int ((2::int) ^ nat (bitlen n))"
      by (simp only: of_int_less_iff)
    then show ?thesis using ln by (simp add: pow2_def)
  qed
  have d_lo: "pow2 (bitlen d - 1) \<le> of_int d"
  proof -
    have "(2::int) ^ nat (bitlen d - 1) \<le> d" using bitlen_bounds [OF d] by simp
    then have "(of_int ((2::int) ^ nat (bitlen d - 1)) :: rat) \<le> of_int d"
      by (simp only: of_int_le_iff)
    then show ?thesis using ld by (simp add: pow2_def)
  qed
  have d_hi: "of_int d < pow2 (bitlen d)"
  proof -
    have "d < (2::int) ^ nat (bitlen d)" using bitlen_bounds [OF d] by simp
    then have "(of_int d :: rat) < of_int ((2::int) ^ nat (bitlen d))"
      by (simp only: of_int_less_iff)
    then show ?thesis using ld by (simp add: pow2_def)
  qed
  have hi: "x < pow2 (?e + 1)"
  proof -
    have "x * pow2 (bitlen d - 1) \<le> x * of_int d"
      using d_lo assms by (simp add: mult_left_mono)
    also have "\<dots> < pow2 (bitlen n)" using n_hi by (simp add: xd)
    also have "\<dots> = pow2 (?e + 1) * pow2 (bitlen d - 1)"
      by (simp flip: pow2_add)
    finally show ?thesis using pow2_pos [of "bitlen d - 1"] by simp
  qed
  have lo: "pow2 (?e - 1) < x"
  proof -
    have "pow2 (?e - 1) * pow2 (bitlen d) = pow2 (bitlen n - 1)"
      by (simp flip: pow2_add)
    also have "\<dots> \<le> x * of_int d" using n_lo by (simp add: xd)
    also have "\<dots> < x * pow2 (bitlen d)"
      using d_hi assms by (simp add: mult_strict_left_mono)
    finally show ?thesis using pow2_pos [of "bitlen d"] by simp
  qed
  have il: "ilog2 x = (if pow2 ?e \<le> x then ?e else ?e - 1)"
    by (simp add: ilog2_def q)
  show "pow2 (ilog2 x) \<le> x" using lo by (simp add: il)
  show "x < pow2 (ilog2 x + 1)" using hi by (auto simp: il)
qed

lemma ilog2_unique:
  assumes "0 < x" and "pow2 a \<le> x" and "x < pow2 (a + 1)"
  shows "ilog2 x = a"
proof -
  have "pow2 (ilog2 x) < pow2 (a + 1)"
    using ilog2_bounds(1) [OF assms(1)] assms(3) by simp
  then have "ilog2 x < a + 1" by (rule pow2_less_D)
  moreover have "pow2 a < pow2 (ilog2 x + 1)"
    using ilog2_bounds(2) [OF assms(1)] assms(2) by simp
  then have "a < ilog2 x + 1" by (rule pow2_less_D)
  ultimately show ?thesis by simp
qed

lemma round_half_even_of_int: "round_half_even (of_int m) = m"
  by (simp add: round_half_even_def)

lemma round_half_even_floor:
  shows "\<lfloor>q\<rfloor> \<le> round_half_even q" and "round_half_even q \<le> \<lfloor>q\<rfloor> + 1"
  by (simp_all add: round_half_even_def Let_def)

lemma round_half_even_ge:
  assumes "of_int k \<le> q"
  shows "k \<le> round_half_even q"
proof -
  have "k \<le> \<lfloor>q\<rfloor>" using assms by (simp add: le_floor_iff)
  then show ?thesis using round_half_even_floor(1) [of q] by simp
qed

lemma round_half_even_le:
  assumes "q \<le> of_int k"
  shows "round_half_even q \<le> k"
proof (cases "q = of_int \<lfloor>q\<rfloor>")
  case True
  then have "round_half_even q = \<lfloor>q\<rfloor>"
    by (metis round_half_even_of_int)
  then show ?thesis using assms by (simp add: floor_le_iff)
next
  case False
  then have "of_int \<lfloor>q\<rfloor> < q" by (metis of_int_floor_le less_le)
  then have "of_int \<lfloor>q\<rfloor> < (of_int k :: rat)" using assms by simp
  then have "\<lfloor>q\<rfloor> < k" by (simp only: of_int_less_iff)
  then show ?thesis using round_half_even_floor(2) [of q] by simp
qed

lemma round_half_even_abs_le:
  assumes "\<bar>q\<bar> \<le> of_int k"
  shows "\<bar>round_half_even q\<bar> \<le> k"
proof -
  have "of_int (- k) \<le> q" and "q \<le> of_int k" using assms by auto
  then have "- k \<le> round_half_even q" and "round_half_even q \<le> k"
    by (auto intro: round_half_even_ge round_half_even_le)
  then show ?thesis by simp
qed

lemma round_half_even_abs_ge:
  assumes "of_int k \<le> \<bar>q\<bar>"
  shows "k \<le> \<bar>round_half_even q\<bar>"
proof (cases "0 \<le> q")
  case True
  then have "of_int k \<le> q" using assms by simp
  then have "k \<le> round_half_even q" by (rule round_half_even_ge)
  then show ?thesis by simp
next
  case False
  then have "q \<le> of_int (- k)" using assms by simp
  then have "round_half_even q \<le> - k" by (rule round_half_even_le)
  then show ?thesis by simp
qed


lemma round_binary_nonzero:
  assumes "x \<noteq> 0" and "e = max (ilog2 \<bar>x\<bar>) emin" and "u = pow2 (e - int p + 1)"
    and "m = round_half_even (x / u)"
  shows "round_binary p emin emax x =
      (if emax < e \<or> (e = emax \<and> \<bar>m\<bar> = 2 ^ p)
       then (if 0 < x then PInf else NInf) else Fin (of_int m * u))"
  unfolding assms(4) assms(3) assms(2) round_binary_def Let_def
  using assms(1) by (simp only: if_False)

lemma round_binary_fixed:
  assumes p: "0 < p" and r: "round_binary p emin emax x = Fin y"
  shows "round_binary p emin emax y = Fin y"
proof (cases "x = 0")
  case True
  then show ?thesis using r by (simp add: round_binary_def)
next
  case False
  define e where "e = max (ilog2 \<bar>x\<bar>) emin"
  define u where "u = pow2 (e - int p + 1)"
  define m where "m = round_half_even (x / u)"
  have u_pos: "0 < u" by (simp add: u_def pow2_pos)
  have unfolded: "round_binary p emin emax x =
      (if emax < e \<or> (e = emax \<and> \<bar>m\<bar> = 2 ^ p)
       then (if 0 < x then PInf else NInf) else Fin (of_int m * u))"
    by (rule round_binary_nonzero [OF False e_def u_def m_def])
  have no_overflow: "\<not> (emax < e \<or> (e = emax \<and> \<bar>m\<bar> = 2 ^ p))"
    using r unfolding unfolded by (auto split: if_splits)
  have y: "y = of_int m * u"
    using r no_overflow unfolding unfolded by simp
  have e_min: "emin \<le> e" by (simp add: e_def)
  have ax: "0 < \<bar>x\<bar>" using False by simp
  have up: "pow2 (e + 1) = 2 ^ p * u"
  proof -
    have "pow2 (e + 1) = pow2 (int p + (e - int p + 1))" by simp
    also have "\<dots> = pow2 (int p) * u" unfolding u_def by (rule pow2_add)
    finally show ?thesis by (simp add: pow2_nat)
  qed
  have x_hi: "\<bar>x\<bar> < pow2 (e + 1)"
  proof -
    have "\<bar>x\<bar> < pow2 (ilog2 \<bar>x\<bar> + 1)" by (rule ilog2_bounds(2) [OF ax])
    also have "\<dots> \<le> pow2 (e + 1)" by (rule pow2_le) (simp add: e_def)
    finally show ?thesis .
  qed
  have m_le: "\<bar>m\<bar> \<le> 2 ^ p"
  proof -
    have "\<bar>x / u\<bar> = \<bar>x\<bar> / u" using u_pos by simp
    also have "\<dots> < 2 ^ p" using x_hi u_pos by (simp add: up pos_divide_less_eq)
    finally have "\<bar>x / u\<bar> \<le> of_int (2 ^ p)" by simp
    then show ?thesis unfolding m_def by (rule round_half_even_abs_le)
  qed
  show ?thesis
  proof (cases "m = 0")
    case True
    then show ?thesis by (simp add: y round_binary_def)
  next
    case m0: False
    have y0: "y \<noteq> 0" using m0 u_pos by (simp add: y)
    have ay: "\<bar>y\<bar> = of_int \<bar>m\<bar> * u" using u_pos by (simp add: y abs_mult)
    have ay_pos: "0 < \<bar>y\<bar>" using y0 by simp
    show ?thesis
    proof (cases "\<bar>m\<bar> = 2 ^ p")
      case top: True
      have ay2: "\<bar>y\<bar> = pow2 (e + 1)" by (simp add: ay top up)
      have "ilog2 \<bar>y\<bar> = e + 1"
        by (rule ilog2_unique [OF ay_pos]) (simp_all add: ay2 pow2_less)
      then have e': "max (ilog2 \<bar>y\<bar>) emin = e + 1" using e_min by simp
      have u': "pow2 (e + 1 - int p + 1) = 2 * u"
      proof -
        have "pow2 (e + 1 - int p + 1) = pow2 (1 + (e - int p + 1))" by simp
        also have "\<dots> = pow2 1 * u" unfolding u_def by (rule pow2_add)
        finally show ?thesis by (simp add: pow2_def)
      qed
      obtain h :: int where h: "m = 2 * h" and ah: "\<bar>h\<bar> = 2 ^ (p - 1)"
      proof -
        obtain p' where p': "p = Suc p'" using p by (cases p) auto
        have "m = 2 ^ p \<or> m = - (2 ^ p)" using top by linarith
        then show ?thesis
        proof
          assume "m = 2 ^ p"
          then show ?thesis using that [of "2 ^ p'"] by (simp add: p')
        next
          assume "m = - (2 ^ p)"
          then show ?thesis using that [of "- (2 ^ p')"] by (simp add: p')
        qed
      qed
      have q: "y / (2 * u) = of_int h" using u_pos by (simp add: y h)
      have ne: "\<bar>h\<bar> \<noteq> 2 ^ p" using p by (simp add: ah)
      have e_lt: "e + 1 \<le> emax" using no_overflow top by simp
      have "round_binary p emin emax y =
          (if emax < e + 1 \<or> (e + 1 = emax \<and> \<bar>h\<bar> = 2 ^ p)
           then (if 0 < y then PInf else NInf) else Fin (of_int h * (2 * u)))"
        by (rule round_binary_nonzero [OF y0 e' [symmetric] u' [symmetric]])
          (simp add: q round_half_even_of_int)
      then have "round_binary p emin emax y = Fin (of_int h * (2 * u))"
        using ne e_lt by simp
      also have "of_int h * (2 * u) = y" by (simp add: y h)
      finally show ?thesis .
    next
      case below: False
      then have m_lt: "\<bar>m\<bar> < 2 ^ p" using m_le by simp
      have y_hi: "\<bar>y\<bar> < pow2 (e + 1)"
      proof -
        have "(of_int \<bar>m\<bar> :: rat) < of_int (2 ^ p)" using m_lt by (simp only: of_int_less_iff)
        then show ?thesis using u_pos by (simp add: ay up)
      qed
      have il_le: "ilog2 \<bar>y\<bar> \<le> e"
      proof -
        have "pow2 (ilog2 \<bar>y\<bar>) < pow2 (e + 1)"
          using ilog2_bounds(1) [OF ay_pos] y_hi by simp
        then have "ilog2 \<bar>y\<bar> < e + 1" by (rule pow2_less_D)
        then show ?thesis by simp
      qed
      have e': "max (ilog2 \<bar>y\<bar>) emin = e"
      proof (cases "e = emin")
        case True
        then show ?thesis using il_le by simp
      next
        case False
        then have e_il: "e = ilog2 \<bar>x\<bar>" using e_min by (simp add: e_def max_def split: if_splits)
        have x_lo: "pow2 e \<le> \<bar>x\<bar>" unfolding e_il by (rule ilog2_bounds(1) [OF ax])
        have pe: "pow2 e = 2 ^ (p - 1) * u"
        proof -
          have "pow2 e = pow2 (int (p - 1) + (e - int p + 1))" using p by simp
          also have "\<dots> = pow2 (int (p - 1)) * u" unfolding u_def by (rule pow2_add)
          finally show ?thesis by (simp add: pow2_nat)
        qed
        have "of_int (2 ^ (p - 1)) \<le> \<bar>x\<bar> / u"
          using x_lo u_pos by (simp add: pe pos_le_divide_eq)
        also have "\<bar>x\<bar> / u = \<bar>x / u\<bar>" using u_pos by simp
        finally have "2 ^ (p - 1) \<le> \<bar>m\<bar>"
          unfolding m_def by (rule round_half_even_abs_ge)
        then have "(of_int (2 ^ (p - 1)) :: rat) \<le> of_int \<bar>m\<bar>"
          by (simp only: of_int_le_iff)
        then have "pow2 e \<le> \<bar>y\<bar>" using u_pos by (simp add: pe ay)
        then have "ilog2 \<bar>y\<bar> = e" using y_hi by (intro ilog2_unique [OF ay_pos])
        then show ?thesis using e_min by simp
      qed
      have q: "y / u = of_int m" using u_pos by (simp add: y)
      have "round_binary p emin emax y =
          (if emax < e \<or> (e = emax \<and> \<bar>m\<bar> = 2 ^ p)
           then (if 0 < y then PInf else NInf) else Fin (of_int m * u))"
        by (rule round_binary_nonzero [OF y0 e' [symmetric] u_def])
          (simp add: q round_half_even_of_int)
      then show ?thesis using no_overflow by (simp add: y)
    qed
  qed
qed

lemma fround_idem: "fround (fround v) = fround v"
proof (cases v)
  case (Fin x)
  show ?thesis
  proof (cases "round_binary 24 (- 126) 127 x")
    case (Fin y)
    have "round_binary 24 (- 126) 127 y = Fin y"
      by (rule round_binary_fixed [OF _ Fin]) simp
    then show ?thesis using Fin \<open>v = Fin x\<close> by simp
  qed (simp_all add: \<open>v = Fin x\<close>)
qed simp_all

section \<open>Elements and accessors\<close>

declare lineSpaceX_loop.simps [simp del] constY_loop.simps [simp del]
  shiftAdd_move.simps [simp del] shiftAdd_fill.simps [simp del]

lemma f32_set_length: "length (f32_set arr k v) = length arr"
  by (simp add: f32_set_def)

lemma f32_get_set:
  "f32_get (f32_set arr k v) j =
     (if j = k \<and> 0 \<le> k \<and> k < int (length arr) then Number (fround (ToNumber v))
      else f32_get arr j)"
  by (auto simp: f32_get_def f32_set_def nth_list_update)

lemma length_xy_setX: "length (xy (setX l i v)) = length (xy l)"
  by (simp add: setX_def f32_set_length)

lemma length_xy_setY: "length (xy (setY l i v)) = length (xy l)"
  by (simp add: setY_def f32_set_length)

lemma numPoints_setX: "numPoints (setX l i v) = numPoints l"
  by (simp add: setX_def)

lemma numPoints_setY: "numPoints (setY l i v) = numPoints l"
  by (simp add: setY_def)

lemma getX_setX:
  "getX (setX l i v) j =
     (if j = i \<and> 0 \<le> i \<and> i * 2 < int (length (xy l)) then Number (fround (ToNumber v))
      else getX l j)"
  by (simp add: getX_def setX_def f32_get_set)

lemma odd_neq_even: "(j::int) * 2 + 1 \<noteq> i * 2"
  by presburger

lemma even_neq_odd: "(j::int) * 2 \<noteq> i * 2 + 1"
  by presburger

lemma getY_setX: "getY (setX l i v) j = getY l j"
  by (simp add: getY_def setX_def f32_get_set odd_neq_even)

lemma getX_setY: "getX (setY l i v) j = getX l j"
  by (simp add: getX_def setY_def f32_get_set even_neq_odd)

lemma getY_setY:
  "getY (setY l i v) j =
     (if j = i \<and> 0 \<le> i \<and> i * 2 + 1 < int (length (xy l)) then Number (fround (ToNumber v))
      else getY l j)"
  by (auto simp add: getY_def setY_def f32_get_set)


lemma lineSpaceX_loop_step:
  "i < int (numPoints l) \<Longrightarrow>
   lineSpaceX_loop l start stepSize i =
   lineSpaceX_loop (setX l i (Number (js_add start (js_mul stepSize (js_of_int i)))))
     start stepSize (i + 1)"
  by (subst lineSpaceX_loop.simps) simp

lemma lineSpaceX_loop_stop:
  "\<not> i < int (numPoints l) \<Longrightarrow> lineSpaceX_loop l start stepSize i = l"
  by (subst lineSpaceX_loop.simps) simp

lemma lineSpaceX_loop_fields:
  "lineSpaceX_loop l start stepSize i = l\<lparr>xy := xy (lineSpaceX_loop l start stepSize i)\<rparr>"
proof (induction l start stepSize i rule: lineSpaceX_loop.induct)
  case (1 l start stepSize i)
  show ?case
  proof (cases "i < int (numPoints l)")
    case True
    let ?l' = "setX l i (Number (js_add start (js_mul stepSize (js_of_int i))))"
    have "lineSpaceX_loop ?l' start stepSize (i + 1)
            = ?l'\<lparr>xy := xy (lineSpaceX_loop ?l' start stepSize (i + 1))\<rparr>"
      using "1.IH" [OF True] .
    also have "\<dots> = l\<lparr>xy := xy (lineSpaceX_loop ?l' start stepSize (i + 1))\<rparr>"
      by (simp add: setX_def)
    finally show ?thesis by (simp add: lineSpaceX_loop_step [OF True])
  next
    case False
    then show ?thesis by (simp add: lineSpaceX_loop_stop)
  qed
qed

lemma length_xy_lineSpaceX_loop: "length (xy (lineSpaceX_loop l start stepSize i)) = length (xy l)"
proof (induction l start stepSize i rule: lineSpaceX_loop.induct)
  case (1 l start stepSize i)
  show ?case
  proof (cases "i < int (numPoints l)")
    case True
    show ?thesis
      unfolding lineSpaceX_loop_step [OF True] using "1.IH" [OF True] by (simp add: length_xy_setX)
  next
    case False
    show ?thesis
      unfolding lineSpaceX_loop_stop [OF False] by (rule refl)
  qed
qed

lemma getY_lineSpaceX_loop: "getY (lineSpaceX_loop l start stepSize i) j = getY l j"
proof (induction l start stepSize i rule: lineSpaceX_loop.induct)
  case (1 l start stepSize i)
  show ?case
  proof (cases "i < int (numPoints l)")
    case True
    show ?thesis
      unfolding lineSpaceX_loop_step [OF True] using "1.IH" [OF True] by (simp add: getY_setX)
  next
    case False
    show ?thesis
      unfolding lineSpaceX_loop_stop [OF False] by (rule refl)
  qed
qed

lemma getX_lineSpaceX_loop:
  "getX (lineSpaceX_loop l start stepSize i) j =
     (if i \<le> j \<and> 0 \<le> j \<and> j < int (numPoints l) \<and> j * 2 < int (length (xy l))
      then Number (fround (js_add start (js_mul stepSize (js_of_int j))))
      else getX l j)"
proof (induction l start stepSize i arbitrary: j rule: lineSpaceX_loop.induct)
  case (1 l start stepSize i)
  show ?case
  proof (cases "i < int (numPoints l)")
    case True
    show ?thesis
      unfolding lineSpaceX_loop_step [OF True] "1.IH" [OF True]
      using True by (auto simp: getX_setX numPoints_setX length_xy_setX)
  next
    case False
    then show ?thesis by (auto simp: lineSpaceX_loop_stop)
  qed
qed

lemma constY_loop_step:
  "i < int (numPoints l) \<Longrightarrow> constY_loop l c i = constY_loop (setY l i c) c (i + 1)"
  by (subst constY_loop.simps) simp

lemma constY_loop_stop: "\<not> i < int (numPoints l) \<Longrightarrow> constY_loop l c i = l"
  by (subst constY_loop.simps) simp

lemma length_xy_constY_loop: "length (xy (constY_loop l c i)) = length (xy l)"
proof (induction l c i rule: constY_loop.induct)
  case (1 l c i)
  show ?case
  proof (cases "i < int (numPoints l)")
    case True
    show ?thesis
      unfolding constY_loop_step [OF True] using "1.IH" [OF True] by (simp add: length_xy_setY)
  next
    case False
    show ?thesis
      unfolding constY_loop_stop [OF False] by (rule refl)
  qed
qed

lemma shiftAdd_move_step:
  "i < int (numPoints l) - shiftSize \<Longrightarrow>
   shiftAdd_move l shiftSize i =
   shiftAdd_move (setY l i (getY l (i + shiftSize))) shiftSize (i + 1)"
  by (subst shiftAdd_move.simps) simp

lemma shiftAdd_move_stop:
  "\<not> i < int (numPoints l) - shiftSize \<Longrightarrow> shiftAdd_move l shiftSize i = l"
  by (subst shiftAdd_move.simps) simp

lemma shiftAdd_fill_step:
  "i < shiftSize \<Longrightarrow>
   shiftAdd_fill l data shiftSize i =
   shiftAdd_fill (setY l (i + int (numPoints l) - shiftSize) (f32_get data i))
     data shiftSize (i + 1)"
  by (subst shiftAdd_fill.simps) simp

lemma shiftAdd_fill_stop: "\<not> i < shiftSize \<Longrightarrow> shiftAdd_fill l data shiftSize i = l"
  by (subst shiftAdd_fill.simps) simp

lemma length_xy_shiftAdd_move: "length (xy (shiftAdd_move l shiftSize i)) = length (xy l)"
proof (induction l shiftSize i rule: shiftAdd_move.induct)
  case (1 l shiftSize i)
  show ?case
  proof (cases "i < int (numPoints l) - shiftSize")
    case True
    show ?thesis
      unfolding shiftAdd_move_step [OF True] using "1.IH" [OF True] by (simp add: length_xy_setY)
  next
    case False
    show ?thesis
      unfolding shiftAdd_move_stop [OF False] by (rule refl)
  qed
qed

lemma numPoints_shiftAdd_move: "numPoints (shiftAdd_move l shiftSize i) = numPoints l"
proof (induction l shiftSize i rule: shiftAdd_move.induct)
  case (1 l shiftSize i)
  show ?case
  proof (cases "i < int (numPoints l) - shiftSize")
    case True
    show ?thesis
      unfolding shiftAdd_move_step [OF True] using "1.IH" [OF True] by (simp add: numPoints_setY)
  next
    case False
    show ?thesis
      unfolding shiftAdd_move_stop [OF False] by (rule refl)
  qed
qed

lemma getX_shiftAdd_move: "getX (shiftAdd_move l shiftSize i) j = getX l j"
proof (induction l shiftSize i rule: shiftAdd_move.induct)
  case (1 l shiftSize i)
  show ?case
  proof (cases "i < int (numPoints l) - shiftSize")
    case True
    show ?thesis
      unfolding shiftAdd_move_step [OF True] using "1.IH" [OF True] by (simp add: getX_setY)
  next
    case False
    show ?thesis
      unfolding shiftAdd_move_stop [OF False] by (rule refl)
  qed
qed

lemma length_xy_shiftAdd_fill: "length (xy (shiftAdd_fill l data shiftSize i)) = length (xy l)"
proof (induction l data shiftSize i rule: shiftAdd_fill.induct)
  case (1 l data shiftSize i)
  show ?case
  proof (cases "i < shiftSize")
    case True
    show ?thesis
      unfolding shiftAdd_fill_step [OF True] using "1.IH" [OF True] by (simp add: length_xy_setY)
  next
    case False
    show ?thesis
      unfolding shiftAdd_fill_stop [OF False] by (rule refl)
  qed
qed

lemma getX_shiftAdd_fill: "getX (shiftAdd_fill l data shiftSize i) j = getX l j"
proof (induction l data shiftSize i rule: shiftAdd_fill.induct)
  case (1 l data shiftSize i)
  show ?case
  proof (cases "i < shiftSize")
    case True
    show ?thesis
      unfolding shiftAdd_fill_step [OF True] using "1.IH" [OF True] by (simp add: getX_setY)
  next
    case False
    show ?thesis
      unfolding shiftAdd_fill_stop [OF False] by (rule refl)
  qed
qed

lemma getY_setY_other: "j \<noteq> i \<Longrightarrow> getY (setY l i v) j = getY l j"
  by (simp add: getY_setY)

lemma getY_setY_same:
  "0 \<le> i \<Longrightarrow> i < int (numPoints l) \<Longrightarrow> length (xy l) = 2 * numPoints l \<Longrightarrow>
   getY (setY l i v) i = Number (fround (ToNumber v))"
  by (simp add: getY_setY)

text \<open>The first loop, on a buffer of the constructor's length.\<close>

lemma getY_shiftAdd_move:
  assumes "length (xy l) = 2 * numPoints l" and "0 \<le> shiftSize" and "0 \<le> i"
  shows "getY (shiftAdd_move l shiftSize i) j =
           (if i \<le> j \<and> j < int (numPoints l) - shiftSize
            then Number (fround (ToNumber (getY l (j + shiftSize))))
            else getY l j)"
  using assms
proof (induction l shiftSize i arbitrary: j rule: shiftAdd_move.induct)
  case (1 l shiftSize i)
  show ?case
  proof (cases "i < int (numPoints l) - shiftSize")
    case True
    let ?l' = "setY l i (getY l (i + shiftSize))"
    have len: "length (xy ?l') = 2 * numPoints ?l'"
      using "1.prems"(1) by (simp add: length_xy_setY numPoints_setY)
    have ih: "getY (shiftAdd_move ?l' shiftSize (i + 1)) j =
           (if i + 1 \<le> j \<and> j < int (numPoints l) - shiftSize
            then Number (fround (ToNumber (getY ?l' (j + shiftSize))))
            else getY ?l' j)"
      using "1.IH" [OF True len] "1.prems" by (simp add: numPoints_setY)
    have same: "getY ?l' i = Number (fround (ToNumber (getY l (i + shiftSize))))"
      using True "1.prems" by (intro getY_setY_same) auto
    consider "j < i" | "j = i" | "i + 1 \<le> j" by linarith
    then have "getY (shiftAdd_move ?l' shiftSize (i + 1)) j =
           (if i \<le> j \<and> j < int (numPoints l) - shiftSize
            then Number (fround (ToNumber (getY l (j + shiftSize))))
            else getY l j)"
    proof cases
      case 1
      then show ?thesis by (simp add: ih getY_setY_other)
    next
      case 2
      with ih same True show ?thesis by simp
    next
      case 3
      then have "j + shiftSize \<noteq> i" "j \<noteq> i" using "1.prems"(2) by auto
      then show ?thesis using 3 by (simp add: ih getY_setY_other)
    qed
    then show ?thesis by (simp only: shiftAdd_move_step [OF True])
  next
    case False
    then have "\<not> (i \<le> j \<and> j < int (numPoints l) - shiftSize)"
      using "1.prems"(3) by linarith
    then show ?thesis unfolding shiftAdd_move_stop [OF False] by (simp only: if_False)
  qed
qed

lemma getY_shiftAdd_fill:
  assumes "length (xy l) = 2 * numPoints l" and "0 \<le> i"
  shows "getY (shiftAdd_fill l data shiftSize i) j =
           (if 0 \<le> j \<and> j < int (numPoints l) \<and> i \<le> j - int (numPoints l) + shiftSize
            then Number (fround (ToNumber (f32_get data (j - int (numPoints l) + shiftSize))))
            else getY l j)"
  using assms
proof (induction l data shiftSize i arbitrary: j rule: shiftAdd_fill.induct)
  case (1 l data shiftSize i)
  show ?case
  proof (cases "i < shiftSize")
    case True
    let ?t = "i + int (numPoints l) - shiftSize"
    let ?l' = "setY l ?t (f32_get data i)"
    have len: "length (xy ?l') = 2 * numPoints ?l'"
      using "1.prems"(1) by (simp add: length_xy_setY numPoints_setY)
    have ih: "getY (shiftAdd_fill ?l' data shiftSize (i + 1)) j =
           (if 0 \<le> j \<and> j < int (numPoints l) \<and> i + 1 \<le> j - int (numPoints l) + shiftSize
            then Number (fround (ToNumber (f32_get data (j - int (numPoints l) + shiftSize))))
            else getY ?l' j)"
      using "1.IH" [OF True len] "1.prems" by (simp add: numPoints_setY)
    have t_less: "?t < int (numPoints l)" using True by simp
    consider "j \<noteq> ?t" | "j = ?t" "0 \<le> j" | "j = ?t" "j < 0" by linarith
    then have "getY (shiftAdd_fill ?l' data shiftSize (i + 1)) j =
           (if 0 \<le> j \<and> j < int (numPoints l) \<and> i \<le> j - int (numPoints l) + shiftSize
            then Number (fround (ToNumber (f32_get data (j - int (numPoints l) + shiftSize))))
            else getY l j)"
    proof cases
      case 1
      then have "i \<le> j - int (numPoints l) + shiftSize
                 \<longleftrightarrow> i + 1 \<le> j - int (numPoints l) + shiftSize"
        by linarith
      then show ?thesis using 1 by (simp add: ih getY_setY_other)
    next
      case 2
      have "getY ?l' ?t = Number (fround (ToNumber (f32_get data i)))"
        using 2 t_less "1.prems"(1) by (intro getY_setY_same) auto
      moreover have "j - int (numPoints l) + shiftSize = i" using 2 by simp
      ultimately show ?thesis using 2 t_less ih by simp
    next
      case 3
      then have "getY ?l' j = getY l j" by (simp add: getY_setY)
      with 3 ih show ?thesis by simp
    qed
    then show ?thesis by (simp only: shiftAdd_fill_step [OF True])
  next
    case False
    then have "\<not> (0 \<le> j \<and> j < int (numPoints l)
                 \<and> i \<le> j - int (numPoints l) + shiftSize)"
      by linarith
    then show ?thesis unfolding shiftAdd_fill_stop [OF False] by (simp only: if_False)
  qed
qed

lemma getY_in_range:
  assumes "length (xy l) = 2 * numPoints l" and "0 \<le> j" and "j < int (numPoints l)"
  shows "getY l j = Number (xy l ! nat (j * 2 + 1))"
  using assms by (simp add: getY_def f32_get_def)

lemma getX_in_range:
  assumes "length (xy l) = 2 * numPoints l" and "0 \<le> j" and "j < int (numPoints l)"
  shows "getX l j = Number (xy l ! nat (j * 2))"
  using assms by (simp add: getX_def f32_get_def)

lemma getY_out_of_range:
  assumes "length (xy l) = 2 * numPoints l" and "\<not> (0 \<le> j \<and> j < int (numPoints l))"
  shows "getY l j = Undefined"
  using assms by (auto simp: getY_def f32_get_def)

lemma getX_out_of_range:
  assumes "length (xy l) = 2 * numPoints l" and "\<not> (0 \<le> j \<and> j < int (numPoints l))"
  shows "getX l j = Undefined"
  using assms by (auto simp: getX_def f32_get_def)

lemma f32_set_out_of_range:
  "\<not> (0 \<le> k \<and> k < int (length arr)) \<Longrightarrow> f32_set arr k v = arr"
  by (auto simp: f32_set_def)

lemma setX_out_of_range:
  assumes "length (xy l) = 2 * numPoints l" and "\<not> (0 \<le> j \<and> j < int (numPoints l))"
  shows "setX l j v = l"
proof -
  have "\<not> (0 \<le> j * 2 \<and> j * 2 < int (length (xy l)))"
    using assms by linarith
  then have "f32_set (xy l) (j * 2) v = xy l"
    by (rule f32_set_out_of_range)
  then show ?thesis by (simp add: setX_def)
qed

lemma setY_out_of_range:
  assumes "length (xy l) = 2 * numPoints l" and "\<not> (0 \<le> j \<and> j < int (numPoints l))"
  shows "setY l j v = l"
proof -
  have "\<not> (0 \<le> j * 2 + 1 \<and> j * 2 + 1 < int (length (xy l)))"
    using assms by linarith
  then have "f32_set (xy l) (j * 2 + 1) v = xy l"
    by (rule f32_set_out_of_range)
  then show ?thesis by (simp add: setY_def)
qed

lemma getY_f32_fixed:
  assumes "length (xy l) = 2 * numPoints l" and "list_all is_f32 (xy l)"
    and "0 \<le> j" and "j < int (numPoints l)"
  shows "Number (fround (ToNumber (getY l j))) = getY l j"
proof -
  have "nat (j * 2 + 1) < length (xy l)" using assms(1,3,4) by simp
  then have "is_f32 (xy l ! nat (j * 2 + 1))"
    using assms(2) by (simp add: list_all_length)
  then show ?thesis
    by (simp add: getY_in_range [OF assms(1,3,4)] is_f32_def)
qed

lemma getY_shiftAdd:
  assumes "length (xy l) = 2 * numPoints l"
  shows "getY (shiftAdd l data) j =
           (if 0 \<le> j \<and> j < int (numPoints l)
            then (if int (numPoints l) - int (length data) \<le> j
                  then Number (fround (data ! nat (j - int (numPoints l) + int (length data))))
                  else Number (fround (ToNumber (getY l (j + int (length data))))))
            else getY l j)"
proof -
  let ?k = "int (length data)"
  let ?m = "shiftAdd_move l ?k 0"
  have len: "length (xy ?m) = 2 * numPoints ?m"
    using assms by (simp add: length_xy_shiftAdd_move numPoints_shiftAdd_move)
  have fill: "getY (shiftAdd l data) j =
           (if 0 \<le> j \<and> j < int (numPoints l) \<and> 0 \<le> j - int (numPoints l) + ?k
            then Number (fround (ToNumber (f32_get data (j - int (numPoints l) + ?k))))
            else getY ?m j)"
    using getY_shiftAdd_fill [OF len, of 0 data ?k j]
    by (simp add: shiftAdd_def Let_def numPoints_shiftAdd_move)
  have move: "getY ?m j =
           (if 0 \<le> j \<and> j < int (numPoints l) - ?k
            then Number (fround (ToNumber (getY l (j + ?k))))
            else getY l j)"
    using getY_shiftAdd_move [OF assms, of ?k 0 j] by simp
  let ?new = "Number (fround (data ! nat (j - int (numPoints l) + ?k)))"
  let ?old = "Number (fround (ToNumber (getY l (j + ?k))))"
  show ?thesis
  proof (cases "0 \<le> j \<and> j < int (numPoints l)")
    case True
    show ?thesis
    proof (cases "int (numPoints l) - ?k \<le> j")
      case hi: True
      have "getY (shiftAdd l data) j
              = Number (fround (ToNumber (f32_get data (j - int (numPoints l) + ?k))))"
        unfolding fill using True hi by (intro if_P) simp
      also have "f32_get data (j - int (numPoints l) + ?k)
                   = Number (data ! nat (j - int (numPoints l) + ?k))"
        using True hi by (simp add: f32_get_def)
      finally have "getY (shiftAdd l data) j = ?new" by simp
      also have "?new = (if int (numPoints l) - ?k \<le> j then ?new else ?old)"
        using hi by (simp only: if_True)
      also have "\<dots> = (if 0 \<le> j \<and> j < int (numPoints l)
                         then (if int (numPoints l) - ?k \<le> j then ?new else ?old)
                         else getY l j)"
        using True by (simp only: simp_thms if_True)
      finally show ?thesis .
    next
      case lo: False
      have "getY (shiftAdd l data) j = getY ?m j"
        unfolding fill using lo by (intro if_not_P) auto
      also have "\<dots> = ?old"
        unfolding move using True lo by (intro if_P) simp
      also have "?old = (if int (numPoints l) - ?k \<le> j then ?new else ?old)"
        using lo by (simp only: if_False)
      also have "\<dots> = (if 0 \<le> j \<and> j < int (numPoints l)
                         then (if int (numPoints l) - ?k \<le> j then ?new else ?old)
                         else getY l j)"
        using True by (simp only: simp_thms if_True)
      finally show ?thesis .
    qed
  next
    case False
    have "getY (shiftAdd l data) j = getY ?m j"
      unfolding fill using False by (intro if_not_P) auto
    also have "\<dots> = getY l j"
      unfolding move using False by (intro if_not_P) auto
    also have "\<dots> = (if 0 \<le> j \<and> j < int (numPoints l)
                       then (if int (numPoints l) - ?k \<le> j then ?new else ?old)
                       else getY l j)"
      using False by (simp only: simp_thms if_False)
    finally show ?thesis .
  qed
qed

lemma getX_shiftAdd: "getX (shiftAdd l data) j = getX l j"
  by (simp add: shiftAdd_def Let_def getX_shiftAdd_fill getX_shiftAdd_move)

lemma length_xy_shiftAdd: "length (xy (shiftAdd l data)) = length (xy l)"
  by (simp add: shiftAdd_def Let_def length_xy_shiftAdd_fill length_xy_shiftAdd_move)

lemma f32_nth: "list_all is_f32 vs \<Longrightarrow> i < length vs \<Longrightarrow> fround (vs ! i) = vs ! i"
  by (simp add: list_all_length is_f32_def)

section \<open>The invariant of a line\<close>

lemma is_f32_fround: "is_f32 (fround v)"
  by (simp add: is_f32_def fround_idem)

lemma f32_f32_set: "list_all is_f32 arr \<Longrightarrow> list_all is_f32 (f32_set arr k v)"
  by (auto simp: f32_set_def list_all_length nth_list_update is_f32_fround)

lemma f32_setX: "list_all is_f32 (xy l) \<Longrightarrow> list_all is_f32 (xy (setX l i v))"
  by (simp add: setX_def f32_f32_set)

lemma f32_setY: "list_all is_f32 (xy l) \<Longrightarrow> list_all is_f32 (xy (setY l i v))"
  by (simp add: setY_def f32_f32_set)

lemma f32_lineSpaceX_loop:
  "list_all is_f32 (xy l) \<Longrightarrow> list_all is_f32 (xy (lineSpaceX_loop l start stepSize i))"
proof (induction l start stepSize i rule: lineSpaceX_loop.induct)
  case (1 l start stepSize i)
  show ?case
  proof (cases "i < int (numPoints l)")
    case True
    show ?thesis
      unfolding lineSpaceX_loop_step [OF True]
      by (rule "1.IH" [OF True]) (rule f32_setX [OF "1.prems"])
  next
    case False
    show ?thesis unfolding lineSpaceX_loop_stop [OF False] by (rule "1.prems")
  qed
qed

lemma numPoints_lineSpaceX_loop:
  "numPoints (lineSpaceX_loop l start stepSize i) = numPoints l"
  by (subst lineSpaceX_loop_fields) simp

lemma f32_constY_loop:
  "list_all is_f32 (xy l) \<Longrightarrow> list_all is_f32 (xy (constY_loop l c i))"
proof (induction l c i rule: constY_loop.induct)
  case (1 l c i)
  show ?case
  proof (cases "i < int (numPoints l)")
    case True
    show ?thesis
      unfolding constY_loop_step [OF True]
      by (rule "1.IH" [OF True]) (rule f32_setY [OF "1.prems"])
  next
    case False
    show ?thesis unfolding constY_loop_stop [OF False] by (rule "1.prems")
  qed
qed

lemma numPoints_constY_loop: "numPoints (constY_loop l c i) = numPoints l"
proof (induction l c i rule: constY_loop.induct)
  case (1 l c i)
  show ?case
  proof (cases "i < int (numPoints l)")
    case True
    show ?thesis
      unfolding constY_loop_step [OF True] using "1.IH" [OF True]
      by (simp add: numPoints_setY)
  next
    case False
    show ?thesis unfolding constY_loop_stop [OF False] by (rule refl)
  qed
qed

lemma f32_shiftAdd_move:
  "list_all is_f32 (xy l) \<Longrightarrow> list_all is_f32 (xy (shiftAdd_move l shiftSize i))"
proof (induction l shiftSize i rule: shiftAdd_move.induct)
  case (1 l shiftSize i)
  show ?case
  proof (cases "i < int (numPoints l) - shiftSize")
    case True
    show ?thesis
      unfolding shiftAdd_move_step [OF True]
      by (rule "1.IH" [OF True]) (rule f32_setY [OF "1.prems"])
  next
    case False
    show ?thesis unfolding shiftAdd_move_stop [OF False] by (rule "1.prems")
  qed
qed

lemma f32_shiftAdd_fill:
  "list_all is_f32 (xy l) \<Longrightarrow> list_all is_f32 (xy (shiftAdd_fill l data shiftSize i))"
proof (induction l data shiftSize i rule: shiftAdd_fill.induct)
  case (1 l data shiftSize i)
  show ?case
  proof (cases "i < shiftSize")
    case True
    show ?thesis
      unfolding shiftAdd_fill_step [OF True]
      by (rule "1.IH" [OF True]) (rule f32_setY [OF "1.prems"])
  next
    case False
    show ?thesis unfolding shiftAdd_fill_stop [OF False] by (rule "1.prems")
  qed
qed

lemma numPoints_shiftAdd_fill:
  "numPoints (shiftAdd_fill l data shiftSize i) = numPoints l"
proof (induction l data shiftSize i rule: shiftAdd_fill.induct)
  case (1 l data shiftSize i)
  show ?case
  proof (cases "i < shiftSize")
    case True
    show ?thesis
      unfolding shiftAdd_fill_step [OF True] using "1.IH" [OF True]
      by (simp add: numPoints_setY)
  next
    case False
    show ?thesis unfolding shiftAdd_fill_stop [OF False] by (rule refl)
  qed
qed

lemma line_ok_new: "line_ok (WebglLine_new c n)"
  by (simp add: line_ok_def WebglLine_new_def list_all_length is_f32_def round_binary_def)

lemma line_ok_setX: "line_ok l \<Longrightarrow> line_ok (setX l i v)"
  by (simp add: line_ok_def length_xy_setX numPoints_setX f32_setX)

lemma line_ok_setY: "line_ok l \<Longrightarrow> line_ok (setY l i v)"
  by (simp add: line_ok_def length_xy_setY numPoints_setY f32_setY)

lemma line_ok_lineSpaceX: "line_ok l \<Longrightarrow> line_ok (lineSpaceX l start stepSize)"
  by (simp add: line_ok_def lineSpaceX_def length_xy_lineSpaceX_loop
      numPoints_lineSpaceX_loop f32_lineSpaceX_loop)

lemma line_ok_constY: "line_ok l \<Longrightarrow> line_ok (constY l c)"
  by (simp add: line_ok_def constY_def length_xy_constY_loop numPoints_constY_loop
      f32_constY_loop)

lemma line_ok_shiftAdd: "line_ok l \<Longrightarrow> line_ok (shiftAdd l data)"
  by (simp add: line_ok_def shiftAdd_def Let_def length_xy_shiftAdd_fill
      length_xy_shiftAdd_move numPoints_shiftAdd_fill numPoints_shiftAdd_move
      f32_shiftAdd_fill f32_shiftAdd_move)

section \<open>shiftAdd\<close>

text \<open>
  Claim C1 has \<^verbatim>\<open>shiftAdd\<close> set \<open>y[n-k+i]\<close> to \<open>newValues[i]\<close> for every sequence of
  new values. The method takes any array of numbers and stores each in the
  \<^verbatim>\<open>Float32Array\<close>: with the one new value 0.1, a binary64 number, the last y of
  the sample line reads back as \<open>13421773 / 134217728\<close>, the binary32 value nearest to it.
\<close>

theorem shiftAdd_binary64_counterexample:
  "to_double (1 / 10) = Fin double_tenth
   \<and> length [Fin double_tenth] \<le> numPoints example_line
   \<and> getY (shiftAdd example_line [Fin double_tenth]) 3
         = Number (Fin (13421773 / 134217728))
   \<and> getY (shiftAdd example_line [Fin double_tenth]) 3 \<noteq> Number ([Fin double_tenth] ! 0)"
  by code_simp

text \<open>
  Claim C1, amended. On a line whose buffer has the constructor's length \<open>2 * numPoints\<close>
  and holds binary32 values (the two parts of \<open>line_ok\<close>, which holds of every line made
  by the constructor and the operations), with \<open>k \<le> numPoints\<close> new values of any kind,
  \<^verbatim>\<open>shiftAdd\<close> sets \<open>y[i]\<close> to the former \<open>y[i+k]\<close> for \<open>i < numPoints - k\<close> and
  \<open>y[numPoints-k+i]\<close> to \<open>newValues[i]\<close> rounded to binary32 for \<open>i < k\<close>; when
  \<open>k = numPoints\<close> every \<open>y[i]\<close> is \<open>newValues[i]\<close> rounded to binary32. When the new
  values are binary32 values, as the content of a \<^verbatim>\<open>Float32Array\<close> is, the rounding
  changes nothing and \<open>y[numPoints-k+i]\<close> is \<open>newValues[i]\<close>.
\<close>

theorem shiftAdd_shifts_and_appends:
  assumes "length (xy l) = 2 * numPoints l"
    and "list_all is_f32 (xy l)"
    and "length newValues \<le> numPoints l"
  shows "(\<forall>i < numPoints l - length newValues.
            getY (shiftAdd l newValues) (int i) = getY l (int (i + length newValues)))
       \<and> (\<forall>i < length newValues.
            getY (shiftAdd l newValues) (int (numPoints l - length newValues + i))
              = Number (fround (newValues ! i)))
       \<and> (length newValues = numPoints l \<longrightarrow>
            (\<forall>i < numPoints l.
               getY (shiftAdd l newValues) (int i) = Number (fround (newValues ! i))))
       \<and> (list_all is_f32 newValues \<longrightarrow>
            (\<forall>i < length newValues.
               getY (shiftAdd l newValues) (int (numPoints l - length newValues + i))
                 = Number (newValues ! i)))"
proof -
  let ?n = "numPoints l" and ?k = "length newValues"
  have moved: "getY (shiftAdd l newValues) (int i) = getY l (int (i + ?k))"
    if "i < ?n - ?k" for i
  proof -
    have lt: "int i + int ?k < int ?n" using that by linarith
    have "getY (shiftAdd l newValues) (int i)
            = Number (fround (ToNumber (getY l (int i + int ?k))))"
      using lt by (simp add: getY_shiftAdd [OF assms(1)])
    also have "\<dots> = getY l (int i + int ?k)"
      using lt by (intro getY_f32_fixed [OF assms(1,2)]) simp_all
    finally show ?thesis by simp
  qed
  have appended:
    "getY (shiftAdd l newValues) (int (?n - ?k + i)) = Number (fround (newValues ! i))"
    if "i < ?k" for i
  proof -
    have "int (?n - ?k + i) - int ?n + int ?k = int i"
      using assms(3) by simp
    then show ?thesis
      using that assms(3) by (simp add: getY_shiftAdd [OF assms(1)])
  qed
  have replaced: "getY (shiftAdd l newValues) (int i) = Number (fround (newValues ! i))"
    if "?k = ?n" and "i < ?n" for i
    using appended [of i] that by simp
  have exact: "getY (shiftAdd l newValues) (int (?n - ?k + i)) = Number (newValues ! i)"
    if "list_all is_f32 newValues" and "i < ?k" for i
    using appended [OF that(2)] f32_nth [OF that] by simp
  show ?thesis using moved appended replaced exact by blast
qed

theorem shiftAdd_shifts_and_appends_witness:
  "length (xy example_line) = 2 * numPoints example_line
   \<and> list_all is_f32 (xy example_line)
   \<and> length [Fin 9, Fin double_tenth] \<le> numPoints example_line
   \<and> getY (shiftAdd example_line [Fin 9, Fin double_tenth]) 0 = getY example_line 2
   \<and> getY (shiftAdd example_line [Fin 9, Fin double_tenth]) 1 = getY example_line 3
   \<and> getY (shiftAdd example_line [Fin 9, Fin double_tenth]) 2 = Number (Fin 9)
   \<and> getY (shiftAdd example_line [Fin 9, Fin double_tenth]) 3
         = Number (Fin (13421773 / 134217728))
   \<and> length [Fin 6, Fin 7, Fin 8, Fin 9] = numPoints example_line
   \<and> list_all is_f32 [Fin 6, Fin 7, Fin 8, Fin 9]
   \<and> getY (shiftAdd example_line [Fin 6, Fin 7, Fin 8, Fin 9]) 0 = Number (Fin 6)
   \<and> getY (shiftAdd example_line [Fin 6, Fin 7, Fin 8, Fin 9]) 3 = Number (Fin 9)"
proof -
  have n: "numPoints example_line = 4"
    by (simp add: example_line_def WebglLine_new_def)
  have h1: "length (xy example_line) = 2 * numPoints example_line"
    by (simp add: example_line_def WebglLine_new_def)
  have h2: "list_all is_f32 (xy example_line)" by code_simp
  have h3: "length [Fin 9, Fin double_tenth] \<le> numPoints example_line" by (simp add: n)
  note T = shiftAdd_shifts_and_appends [OF h1 h2 h3]
  have m0: "getY (shiftAdd example_line [Fin 9, Fin double_tenth]) 0 = getY example_line 2"
    using T [THEN conjunct1, THEN spec, of 0] by (simp add: n)
  have m1: "getY (shiftAdd example_line [Fin 9, Fin double_tenth]) 1 = getY example_line 3"
    using T [THEN conjunct1, THEN spec, of 1] by (simp add: n)
  have r0: "fround ([Fin 9, Fin double_tenth] ! 0) = Fin 9" by code_simp
  have r1: "fround ([Fin 9, Fin double_tenth] ! 1) = Fin (13421773 / 134217728)"
    by code_simp
  have i0: "int (numPoints example_line - length [Fin 9, Fin double_tenth] + 0) = 2"
    by (simp add: n)
  have i1: "int (numPoints example_line - length [Fin 9, Fin double_tenth] + 1) = 3"
    by (simp add: n)
  have a0: "getY (shiftAdd example_line [Fin 9, Fin double_tenth]) 2 = Number (Fin 9)"
  proof -
    have "0 < length [Fin 9, Fin double_tenth]" by simp
    with T have "getY (shiftAdd example_line [Fin 9, Fin double_tenth])
        (int (numPoints example_line - length [Fin 9, Fin double_tenth] + 0))
        = Number (fround ([Fin 9, Fin double_tenth] ! 0))"
      by blast
    then show ?thesis by (simp only: i0 r0)
  qed
  have a1: "getY (shiftAdd example_line [Fin 9, Fin double_tenth]) 3
      = Number (Fin (13421773 / 134217728))"
  proof -
    have "1 < length [Fin 9, Fin double_tenth]" by simp
    with T have "getY (shiftAdd example_line [Fin 9, Fin double_tenth])
        (int (numPoints example_line - length [Fin 9, Fin double_tenth] + 1))
        = Number (fround ([Fin 9, Fin double_tenth] ! 1))"
      by blast
    then show ?thesis by (simp only: i1 r1)
  qed
  have g3: "length [Fin 6, Fin 7, Fin 8, Fin 9] = numPoints example_line" by (simp add: n)
  have g3': "length [Fin 6, Fin 7, Fin 8, Fin 9] \<le> numPoints example_line"
    by (simp add: n)
  have g4: "list_all is_f32 [Fin 6, Fin 7, Fin 8, Fin 9]" by code_simp
  note F = shiftAdd_shifts_and_appends [OF h1 h2 g3', THEN conjunct2, THEN conjunct2,
      THEN conjunct2, THEN mp, OF g4]
  have f0: "getY (shiftAdd example_line [Fin 6, Fin 7, Fin 8, Fin 9]) 0 = Number (Fin 6)"
    using F [THEN spec, of 0] by (simp add: n)
  have f3: "getY (shiftAdd example_line [Fin 6, Fin 7, Fin 8, Fin 9]) 3 = Number (Fin 9)"
    using F [THEN spec, of 3] by (simp add: n)
  show ?thesis using h1 h2 h3 m0 m1 a0 a1 g3 g4 f0 f3 by blast
qed

text \<open>
  Claim C2 asks for a failure and an unchanged buffer when there are more new values
  than points. The source has no such guard: the first loop does not run, the writes of
  the second loop at negative indices are ignored, and the others overwrite all y
  values. With five values on the sample line, \<open>y[0]\<close> goes from 1 to 6.
\<close>

theorem shiftAdd_overlong_counterexample:
  "numPoints example_line < length example_overlong
   \<and> spec_shiftAppend example_line example_overlong = Inl InvalidArgument
   \<and> Inr (shiftAdd example_line example_overlong)
         \<noteq> spec_shiftAppend example_line example_overlong
   \<and> getY example_line 0 = Number (Fin 1)
   \<and> getY (shiftAdd example_line example_overlong) 0 = Number (Fin 6)
   \<and> xy (shiftAdd example_line example_overlong) \<noteq> xy example_line"
  by code_simp

text \<open>
  Claim C2, amended. With \<open>k > numPoints\<close> new values of any kind \<^verbatim>\<open>shiftAdd\<close> returns a
  line whose x values are unchanged and whose \<open>y[i]\<close> is \<open>newValues[k - numPoints + i]\<close>
  rounded to binary32 for every \<open>i < numPoints\<close>: the buffer holds the last \<open>numPoints\<close>
  of the new values as a \<^verbatim>\<open>Float32Array\<close> stores them, which is unrounded when they are
  binary32 values.
\<close>

theorem shiftAdd_overlong_keeps_last:
  assumes "length (xy l) = 2 * numPoints l"
    and "numPoints l < length newValues"
  shows "(\<forall>i. getX (shiftAdd l newValues) i = getX l i)
       \<and> (\<forall>i < numPoints l.
            getY (shiftAdd l newValues) (int i)
              = Number (fround (newValues ! (length newValues - numPoints l + i))))
       \<and> (list_all is_f32 newValues \<longrightarrow>
            (\<forall>i < numPoints l.
               getY (shiftAdd l newValues) (int i)
                 = Number (newValues ! (length newValues - numPoints l + i))))"
proof -
  have rounded: "getY (shiftAdd l newValues) (int i)
          = Number (fround (newValues ! (length newValues - numPoints l + i)))"
    if "i < numPoints l" for i
  proof -
    let ?p = "length newValues - numPoints l + i"
    have idx: "nat (int i - int (numPoints l) + int (length newValues)) = ?p"
      using assms(2) by linarith
    show ?thesis
      using that assms(2) by (simp add: getY_shiftAdd [OF assms(1)] idx)
  qed
  have exact: "getY (shiftAdd l newValues) (int i)
          = Number (newValues ! (length newValues - numPoints l + i))"
    if "list_all is_f32 newValues" and "i < numPoints l" for i
  proof -
    have "length newValues - numPoints l + i < length newValues"
      using that(2) assms(2) by linarith
    then have "fround (newValues ! (length newValues - numPoints l + i))
        = newValues ! (length newValues - numPoints l + i)"
      by (rule f32_nth [OF that(1)])
    then show ?thesis using rounded [OF that(2)] by simp
  qed
  have xs: "\<forall>i. getX (shiftAdd l newValues) i = getX l i"
    by (simp add: getX_shiftAdd)
  show ?thesis using xs rounded exact by blast
qed

theorem shiftAdd_overlong_keeps_last_witness:
  "length (xy example_line) = 2 * numPoints example_line
   \<and> numPoints example_line < length example_doubles
   \<and> getX (shiftAdd example_line example_doubles) 1 = getX example_line 1
   \<and> getY (shiftAdd example_line example_doubles) 0 = Number (Fin (13421773 / 134217728))
   \<and> getY (shiftAdd example_line example_doubles) 2 = Number PInf
   \<and> getY (shiftAdd example_line example_doubles) 3 = Number (Fin 9)
   \<and> numPoints example_line < length example_overlong
   \<and> list_all is_f32 example_overlong
   \<and> getY (shiftAdd example_line example_overlong) 0 = Number (Fin 6)
   \<and> getY (shiftAdd example_line example_overlong) 3 = Number (Fin 9)"
proof -
  have n: "numPoints example_line = 4"
    by (simp add: example_line_def WebglLine_new_def)
  have h1: "length (xy example_line) = 2 * numPoints example_line"
    by (simp add: example_line_def WebglLine_new_def)
  have h2: "numPoints example_line < length example_doubles"
    by (simp add: n example_doubles_def)
  note T = shiftAdd_overlong_keeps_last [OF h1 h2]
  have x1: "getX (shiftAdd example_line example_doubles) 1 = getX example_line 1"
    using T [THEN conjunct1, THEN spec, of 1] .
  have p: "length example_doubles - numPoints example_line = 1"
    by (simp add: n example_doubles_def)
  have r0: "fround (example_doubles ! (1 + 0)) = Fin (13421773 / 134217728)" by code_simp
  have r2: "fround (example_doubles ! (1 + 2)) = PInf" by code_simp
  have r3: "fround (example_doubles ! (1 + 3)) = Fin 9" by code_simp
  have y0: "getY (shiftAdd example_line example_doubles) 0
      = Number (Fin (13421773 / 134217728))"
  proof -
    have "0 < numPoints example_line" by (simp add: n)
    with T have "getY (shiftAdd example_line example_doubles) (int 0)
        = Number (fround (example_doubles
            ! (length example_doubles - numPoints example_line + 0)))"
      by blast
    then show ?thesis by (simp only: p r0 int_ops)
  qed
  have y2: "getY (shiftAdd example_line example_doubles) 2 = Number PInf"
  proof -
    have "2 < numPoints example_line" by (simp add: n)
    with T have "getY (shiftAdd example_line example_doubles) (int 2)
        = Number (fround (example_doubles
            ! (length example_doubles - numPoints example_line + 2)))"
      by blast
    then show ?thesis by (simp only: p r2 int_ops)
  qed
  have y3: "getY (shiftAdd example_line example_doubles) 3 = Number (Fin 9)"
  proof -
    have "3 < numPoints example_line" by (simp add: n)
    with T have "getY (shiftAdd example_line example_doubles) (int 3)
        = Number (fround (example_doubles
            ! (length example_doubles - numPoints example_line + 3)))"
      by blast
    then show ?thesis by (simp only: p r3 int_ops)
  qed
  have g2: "numPoints example_line < length example_overlong"
    by (simp add: n example_overlong_def)
  have g3: "list_all is_f32 example_overlong" by code_simp
  note F = shiftAdd_overlong_keeps_last [OF h1 g2, THEN conjunct2, THEN conjunct2,
      THEN mp, OF g3]
  have f0: "getY (shiftAdd example_line example_overlong) 0 = Number (Fin 6)"
    using F [THEN spec, of 0] by (simp add: n example_overlong_def)
  have f3: "getY (shiftAdd example_line example_overlong) 3 = Number (Fin 9)"
    using F [THEN spec, of 3] by (simp add: n example_overlong_def)
  show ?thesis using h1 h2 x1 y0 y2 y3 g2 g3 f0 f3 by blast
qed

section \<open>Point accessors\<close>

lemma getX_setX_same:
  "0 \<le> i \<Longrightarrow> i < int (numPoints l) \<Longrightarrow> length (xy l) = 2 * numPoints l \<Longrightarrow>
   getX (setX l i v) i = Number (fround (ToNumber v))"
  by (simp add: getX_setX)

text \<open>
  Claim C3 asks the accessors to fail with \<open>IndexOutOfRange\<close> outside
  \<open>0 \<le> index < capacity\<close>. The source checks nothing: on the sample line of capacity 4,
  \<^verbatim>\<open>getX(4)\<close> returns \<^verbatim>\<open>undefined\<close> and \<^verbatim>\<open>setX(4, 7)\<close> returns, where the contract
  of the specification gives the error.
\<close>

theorem accessor_counterexample:
  "\<not> (0 \<le> (4::int) \<and> (4::int) < int (numPoints example_line))
   \<and> spec_getX example_line 4 = Inl IndexOutOfRange
   \<and> Inr (getX example_line 4) \<noteq> spec_getX example_line 4
   \<and> getX example_line 4 = Undefined
   \<and> spec_setX example_line 4 (Number (Fin 7)) = Inl IndexOutOfRange
   \<and> Inr (setX example_line 4 (Number (Fin 7))) \<noteq> spec_setX example_line 4 (Number (Fin 7))"
  by code_simp

text \<open>
  Claim C3, amended. On a line whose buffer has length \<open>2 * numPoints\<close>, an index with
  \<open>0 \<le> index < numPoints\<close> makes \<^verbatim>\<open>getX\<close> and \<^verbatim>\<open>getY\<close> return the stored number and
  \<^verbatim>\<open>setX\<close> and \<^verbatim>\<open>setY\<close> store the value (converted to a number and rounded to
  binary32); any other index makes \<^verbatim>\<open>getX\<close> and \<^verbatim>\<open>getY\<close> return \<^verbatim>\<open>undefined\<close> and
  \<^verbatim>\<open>setX\<close> and \<^verbatim>\<open>setY\<close> return with the line exactly as it was. No call fails.
\<close>

theorem accessors_in_and_out_of_range:
  assumes "length (xy l) = 2 * numPoints l"
  shows "(0 \<le> i \<and> i < int (numPoints l) \<longrightarrow>
            getX l i = Number (xy l ! nat (i * 2))
          \<and> getY l i = Number (xy l ! nat (i * 2 + 1))
          \<and> getX (setX l i v) i = Number (fround (ToNumber v))
          \<and> getY (setY l i v) i = Number (fround (ToNumber v)))
       \<and> (\<not> (0 \<le> i \<and> i < int (numPoints l)) \<longrightarrow>
            getX l i = Undefined \<and> getY l i = Undefined
          \<and> setX l i v = l \<and> setY l i v = l)"
proof (intro conjI impI)
  assume r: "0 \<le> i \<and> i < int (numPoints l)"
  show "getX l i = Number (xy l ! nat (i * 2))"
    using r by (intro getX_in_range [OF assms]) simp_all
  show "getY l i = Number (xy l ! nat (i * 2 + 1))"
    using r by (intro getY_in_range [OF assms]) simp_all
  show "getX (setX l i v) i = Number (fround (ToNumber v))"
    using r assms by (intro getX_setX_same) simp_all
  show "getY (setY l i v) i = Number (fround (ToNumber v))"
    using r assms by (intro getY_setY_same) simp_all
next
  assume o: "\<not> (0 \<le> i \<and> i < int (numPoints l))"
  show "getX l i = Undefined" by (rule getX_out_of_range [OF assms o])
  show "getY l i = Undefined" by (rule getY_out_of_range [OF assms o])
  show "setX l i v = l" by (rule setX_out_of_range [OF assms o])
  show "setY l i v = l" by (rule setY_out_of_range [OF assms o])
qed

theorem accessors_in_and_out_of_range_witness:
  "length (xy example_line) = 2 * numPoints example_line
   \<and> getX example_line 1 = Number (Fin (- (1 / 2)))
   \<and> getY example_line 1 = Number (Fin 2)
   \<and> getX (setX example_line 1 (Number (Fin 7))) 1 = Number (Fin 7)
   \<and> getY (setY example_line 1 Undefined) 1 = Number NaN
   \<and> getX example_line (- 1) = Undefined
   \<and> getY example_line 4 = Undefined
   \<and> setX example_line 4 (Number (Fin 7)) = example_line
   \<and> setY example_line (- 1) (Number (Fin 7)) = example_line"
proof -
  have n: "numPoints example_line = 4"
    by (simp add: example_line_def WebglLine_new_def)
  have h: "length (xy example_line) = 2 * numPoints example_line"
    by (simp add: example_line_def WebglLine_new_def)
  have r1: "0 \<le> (1::int) \<and> 1 < int (numPoints example_line)" by (simp add: n)
  have e1: "xy example_line ! nat (1 * 2) = Fin (- (1 / 2))"
    by (simp add: example_line_def)
  have e2: "xy example_line ! nat (1 * 2 + 1) = Fin 2"
    by (simp add: example_line_def)
  have e3: "fround (ToNumber (Number (Fin 7))) = Fin 7" by code_simp
  have e4: "fround (ToNumber Undefined) = NaN" by code_simp
  have inner: "getX example_line 1 = Number (Fin (- (1 / 2)))
      \<and> getY example_line 1 = Number (Fin 2)
      \<and> getX (setX example_line 1 (Number (Fin 7))) 1 = Number (Fin 7)"
    using accessors_in_and_out_of_range [OF h, of 1 "Number (Fin 7)"] r1
    by (simp only: e1 e2 e3 simp_thms)
  have nan: "getY (setY example_line 1 Undefined) 1 = Number NaN"
    using accessors_in_and_out_of_range [OF h, of 1 Undefined] r1
    by (simp only: e4 simp_thms)
  have below: "getX example_line (- 1) = Undefined
      \<and> setY example_line (- 1) (Number (Fin 7)) = example_line"
    using accessors_in_and_out_of_range [OF h, of "- 1" "Number (Fin 7)"] by (simp add: n)
  have above: "getY example_line 4 = Undefined
      \<and> setX example_line 4 (Number (Fin 7)) = example_line"
    using accessors_in_and_out_of_range [OF h, of 4 "Number (Fin 7)"] by (simp add: n)
  show ?thesis using h inner nan below above by blast
qed

text \<open>
  Claim C5. For a capacity above 0 and an index inside it, \<^verbatim>\<open>getX\<close> after \<^verbatim>\<open>setX\<close> of the
  number \<open>v\<close> returns \<open>v\<close> rounded to binary32, the storage width, which is \<open>v\<close> itself
  when \<open>v\<close> is a binary32 value; the same holds for \<^verbatim>\<open>setY\<close> and \<^verbatim>\<open>getY\<close>.
\<close>

theorem set_then_get:
  assumes "length (xy l) = 2 * numPoints l" and "0 < numPoints l"
    and "0 \<le> i" and "i < int (numPoints l)"
  shows "getX (setX l i (Number v)) i = Number (fround v)
       \<and> getY (setY l i (Number v)) i = Number (fround v)
       \<and> (is_f32 v \<longrightarrow> getX (setX l i (Number v)) i = Number v
                       \<and> getY (setY l i (Number v)) i = Number v)"
proof -
  have x: "getX (setX l i (Number v)) i = Number (fround v)"
    using getX_setX_same [OF assms(3,4,1), of "Number v"] by simp
  have y: "getY (setY l i (Number v)) i = Number (fround v)"
    using getY_setY_same [OF assms(3,4,1), of "Number v"] by simp
  show ?thesis using x y by (simp add: is_f32_def)
qed

theorem set_then_get_witness:
  "length (xy example_line) = 2 * numPoints example_line
   \<and> 0 < numPoints example_line
   \<and> (0::int) \<le> 2 \<and> 2 < int (numPoints example_line)
   \<and> getX (setX example_line 2 (Number (Fin (1 / 10)))) 2 = Number (Fin (13421773 / 134217728))
   \<and> getY (setY example_line 2 (Number (Fin (1 / 10)))) 2 = Number (Fin (13421773 / 134217728))
   \<and> is_f32 (Fin (3 / 4))
   \<and> getX (setX example_line 2 (Number (Fin (3 / 4)))) 2 = Number (Fin (3 / 4))
   \<and> getY (setY example_line 2 (Number (Fin (3 / 4)))) 2 = Number (Fin (3 / 4))"
proof -
  have n: "numPoints example_line = 4"
    by (simp add: example_line_def WebglLine_new_def)
  have h1: "length (xy example_line) = 2 * numPoints example_line"
    by (simp add: example_line_def WebglLine_new_def)
  have h2: "0 < numPoints example_line" by (simp add: n)
  have h3: "(0::int) \<le> 2" by simp
  have h4: "2 < int (numPoints example_line)" by (simp add: n)
  have r: "fround (Fin (1 / 10)) = Fin (13421773 / 134217728)" by code_simp
  have f: "is_f32 (Fin (3 / 4))" by code_simp
  have a: "getX (setX example_line 2 (Number (Fin (1 / 10)))) 2 = Number (Fin (13421773 / 134217728))
      \<and> getY (setY example_line 2 (Number (Fin (1 / 10)))) 2 = Number (Fin (13421773 / 134217728))"
    using set_then_get [OF h1 h2 h3 h4, of "Fin (1 / 10)"] by (simp only: r)
  have b: "getX (setX example_line 2 (Number (Fin (3 / 4)))) 2 = Number (Fin (3 / 4))
      \<and> getY (setY example_line 2 (Number (Fin (3 / 4)))) 2 = Number (Fin (3 / 4))"
    using set_then_get [OF h1 h2 h3 h4, of "Fin (3 / 4)"] f by blast
  show ?thesis using h1 h2 h3 h4 f a b by blast
qed


section \<open>lineSpaceX, and what the operations leave alone\<close>

text \<open>
  Claim C6 gives \<^verbatim>\<open>getX(i)\<close> as \<^verbatim>\<open>start + step*i\<close>. The sum is computed in binary64
  and stored in binary32: with \<open>start = 16777217 = 2^24 + 1\<close> and \<open>step = 0\<close>, both
  binary64 values, the sum is 16777217 and the element read back is 16777216.
\<close>

theorem lineSpaceX_counterexample:
  "to_double 16777217 = Fin 16777217
   \<and> js_add (Fin 16777217) (js_mul (Fin 0) (js_of_int 0)) = Fin 16777217
   \<and> getX (lineSpaceX (WebglLine_new example_color 1) (Fin 16777217) (Fin 0)) 0
         = Number (Fin 16777216)
   \<and> getX (lineSpaceX (WebglLine_new example_color 1) (Fin 16777217) (Fin 0)) 0
         \<noteq> Number (js_add (Fin 16777217) (js_mul (Fin 0) (js_of_int 0)))"
  by code_simp

text \<open>
  Claim C6, amended. On a line whose buffer has length \<open>2 * numPoints\<close>, after
  \<^verbatim>\<open>lineSpaceX(start, stepSize)\<close> every \<^verbatim>\<open>getX(i)\<close> with \<open>i < numPoints\<close> is
  \<^verbatim>\<open>start + stepSize * i\<close> rounded to binary32, and no y value has changed.
\<close>

theorem lineSpaceX_rounded:
  assumes "length (xy l) = 2 * numPoints l"
  shows "(\<forall>i < numPoints l.
            getX (lineSpaceX l start stepSize) (int i)
              = Number (fround (js_add start (js_mul stepSize (js_of_int (int i))))))
       \<and> (\<forall>i. getY (lineSpaceX l start stepSize) i = getY l i)"
proof -
  have "getX (lineSpaceX l start stepSize) (int i)
          = Number (fround (js_add start (js_mul stepSize (js_of_int (int i)))))"
    if "i < numPoints l" for i
    using that assms by (simp add: lineSpaceX_def getX_lineSpaceX_loop)
  then show ?thesis by (simp add: lineSpaceX_def getY_lineSpaceX_loop)
qed

theorem lineSpaceX_rounded_witness:
  "length (xy example_line) = 2 * numPoints example_line
   \<and> getX (lineSpaceX example_line (Fin 3) (Fin (1 / 4))) 2 = Number (Fin (7 / 2))
   \<and> getX (lineSpaceX example_line (Fin 16777217) (Fin 0)) 3 = Number (Fin 16777216)
   \<and> getY (lineSpaceX example_line (Fin 3) (Fin (1 / 4))) 2 = getY example_line 2"
proof -
  have n: "numPoints example_line = 4"
    by (simp add: example_line_def WebglLine_new_def)
  have h: "length (xy example_line) = 2 * numPoints example_line"
    by (simp add: example_line_def WebglLine_new_def)
  have e1: "fround (js_add (Fin 3) (js_mul (Fin (1 / 4)) (js_of_int (int 2)))) = Fin (7 / 2)"
    by code_simp
  have e2: "fround (js_add (Fin 16777217) (js_mul (Fin 0) (js_of_int (int 3)))) = Fin 16777216"
    by code_simp
  have a: "getX (lineSpaceX example_line (Fin 3) (Fin (1 / 4))) (int 2) = Number (Fin (7 / 2))"
  proof -
    have "2 < numPoints example_line" by (simp add: n)
    with lineSpaceX_rounded [OF h, of "Fin 3" "Fin (1 / 4)"]
    have "getX (lineSpaceX example_line (Fin 3) (Fin (1 / 4))) (int 2)
            = Number (fround (js_add (Fin 3) (js_mul (Fin (1 / 4)) (js_of_int (int 2)))))"
      by blast
    then show ?thesis by (simp only: e1)
  qed
  have b: "getX (lineSpaceX example_line (Fin 16777217) (Fin 0)) (int 3) = Number (Fin 16777216)"
  proof -
    have "3 < numPoints example_line" by (simp add: n)
    with lineSpaceX_rounded [OF h, of "Fin 16777217" "Fin 0"]
    have "getX (lineSpaceX example_line (Fin 16777217) (Fin 0)) (int 3)
            = Number (fround (js_add (Fin 16777217) (js_mul (Fin 0) (js_of_int (int 3)))))"
      by blast
    then show ?thesis by (simp only: e2)
  qed
  have c: "getY (lineSpaceX example_line (Fin 3) (Fin (1 / 4))) 2 = getY example_line 2"
    using lineSpaceX_rounded [OF h, of "Fin 3" "Fin (1 / 4)", THEN conjunct2, THEN spec, of 2] .
  show ?thesis using h a b c by simp
qed

text \<open>
  Claim C7. \<^verbatim>\<open>shiftAdd\<close> leaves every x value as it was: \<^verbatim>\<open>getX\<close> gives the same at
  every index, on a buffer of the same length. This holds for every line and for new
  values of any length, those of at most \<open>numPoints\<close> values among them.
\<close>

theorem shiftAdd_keeps_x:
  "getX (shiftAdd l newValues) i = getX l i
   \<and> length (xy (shiftAdd l newValues)) = length (xy l)"
  by (simp add: getX_shiftAdd length_xy_shiftAdd)

text \<open>
  Claim C9. The constructor makes a buffer of length \<open>2 * numPoints\<close>, and \<^verbatim>\<open>setX\<close>,
  \<^verbatim>\<open>setY\<close>, \<^verbatim>\<open>lineSpaceX\<close>, \<^verbatim>\<open>constY\<close> and \<^verbatim>\<open>shiftAdd\<close> return a buffer of the
  length they were given.
\<close>

theorem buffer_length_fixed:
  "length (xy (WebglLine_new c n)) = 2 * n
   \<and> length (xy (setX l i v)) = length (xy l)
   \<and> length (xy (setY l i v)) = length (xy l)
   \<and> length (xy (lineSpaceX l start stepSize)) = length (xy l)
   \<and> length (xy (constY l v)) = length (xy l)
   \<and> length (xy (shiftAdd l newValues)) = length (xy l)"
  by (simp add: WebglLine_new_def length_xy_setX length_xy_setY lineSpaceX_def
      length_xy_lineSpaceX_loop constY_def length_xy_constY_loop length_xy_shiftAdd)

section \<open>update, addLine and removeAllLines\<close>

lemma heap_gl_do: "heap (gl_do cs s) = heap s"
  by (simp add: gl_do_def)

lemma calls_gl_do: "calls (webgl (wglp (gl_do cs s))) = calls (webgl (wglp s)) @ cs"
  by (simp add: gl_do_def)

lemma gl_do_Nil: "gl_do [] s = s"
  by (simp add: gl_do_def)

lemma gl_do_gl_do: "gl_do ds (gl_do cs s) = gl_do (cs @ ds) s"
  by (simp add: gl_do_def)

lemma plot_fields_gl_do:
  "debug (wglp (gl_do cs s)) = debug (wglp s)"
  "lines (wglp (gl_do cs s)) = lines (wglp s)"
  "gScaleX (wglp (gl_do cs s)) = gScaleX (wglp s)"
  "gScaleY (wglp (gl_do cs s)) = gScaleY (wglp s)"
  "gXYratio (wglp (gl_do cs s)) = gXYratio (wglp s)"
  "gOffsetX (wglp (gl_do cs s)) = gOffsetX (wglp s)"
  "gOffsetY (wglp (gl_do cs s)) = gOffsetY (wglp s)"
  "progThinLine (wglp (gl_do cs s)) = progThinLine (wglp s)"
  "buffers (webgl (wglp (gl_do cs s))) = buffers (webgl (wglp s))"
  "attribLocation (webgl (wglp (gl_do cs s))) = attribLocation (webgl (wglp s))"
  by (simp_all add: gl_do_def)

lemma draw_calls_gl_do: "draw_calls (wglp (gl_do cs s)) line = draw_calls (wglp s) line"
  by (simp add: draw_calls_def plot_fields_gl_do)

text \<open>
  One round of the \<^verbatim>\<open>forEach\<close> adds the calls of a visible line and nothing else; the
  whole loop adds them for the visible lines in the order of \<^verbatim>\<open>_lines\<close>. The callback
  changes neither \<^verbatim>\<open>_lines\<close> nor a line, so iterating over the references as they were at
  the start is what \<^verbatim>\<open>forEach\<close> does.
\<close>

lemma update_line_gl_do:
  "update_line s ref =
     gl_do (if visible (heap s ref) then draw_calls (wglp s) (heap s ref) else []) s"
  by (simp add: update_line_def Let_def gl_do_Nil)

lemma foldl_update_line:
  "foldl update_line s refs =
     gl_do (concat (map (draw_calls (wglp s)) (filter visible (map (heap s) refs)))) s"
proof (induction refs arbitrary: s)
  case Nil
  show ?case by (simp add: gl_do_Nil)
next
  case (Cons ref refs)
  let ?cs = "if visible (heap s ref) then draw_calls (wglp s) (heap s ref) else []"
  have "foldl update_line s (ref # refs) = foldl update_line (gl_do ?cs s) refs"
    by (simp only: foldl_Cons update_line_gl_do)
  also have "\<dots> = gl_do (concat (map (draw_calls (wglp (gl_do ?cs s)))
                        (filter visible (map (heap (gl_do ?cs s)) refs)))) (gl_do ?cs s)"
    by (rule Cons.IH)
  also have "\<dots> = gl_do (?cs @ concat (map (draw_calls (wglp s))
                        (filter visible (map (heap s) refs)))) s"
    by (simp only: gl_do_gl_do heap_gl_do draw_calls_gl_do [abs_def])
  also have "?cs @ concat (map (draw_calls (wglp s)) (filter visible (map (heap s) refs)))
      = concat (map (draw_calls (wglp s)) (filter visible (map (heap s) (ref # refs))))"
    by simp
  finally show ?case .
qed

lemma update_gl_do:
  "update s =
     gl_do (concat (map (draw_calls (wglp s))
              (filter visible (map (heap s) (lines (wglp s)))))) s"
  by (simp only: update_def foldl_update_line)

lemma fround_zero: "fround (Fin 0) = Fin 0"
  by (simp add: round_binary_def)

lemma lines_addLine: "lines (wglp (addLine s ref)) = lines (wglp s) @ [ref]"
  by (simp add: addLine_def Let_def gl_do_def)

lemma lines_foldl_addLine: "lines (wglp (foldl addLine s refs)) = lines (wglp s) @ refs"
  by (induction refs arbitrary: s) (simp_all add: lines_addLine)

text \<open>
  Claim C4. \<^verbatim>\<open>update\<close> adds to the calls made so far, for each line of \<^verbatim>\<open>_lines\<close> that is
  visible and in the order of \<^verbatim>\<open>_lines\<close>, nine calls and no other: the scale matrix with
  \<^verbatim>\<open>scaleX * gScaleX\<close> and \<^verbatim>\<open>scaleY * gScaleY * gXYratio\<close> on the diagonal, the offset
  vector \<^verbatim>\<open>offsetX + gOffsetX\<close>, \<^verbatim>\<open>offsetY + gOffsetY\<close> (both handed over in a
  \<^verbatim>\<open>Float32Array\<close>), the color, one \<^verbatim>\<open>bufferData\<close> of the line's buffer as it is now in
  the store, and one \<^verbatim>\<open>drawArrays\<close> over \<^verbatim>\<open>webglNumPoints\<close> points, as a closed loop if
  \<^verbatim>\<open>loop\<close> is set and as an open strip otherwise. The order of \<^verbatim>\<open>_lines\<close> is the order
  of attachment: \<^verbatim>\<open>addLine\<close> puts the new line last.
\<close>

theorem update_draws_visible_lines:
  "calls (webgl (wglp (update s))) =
     calls (webgl (wglp s)) @
     concat (map
       (\<lambda>line.
          [UseProgram (progThinLine (wglp s)),
           GetUniformLocation (progThinLine (wglp s)) ''uscale'',
           UniformMatrix2fv (UniformLocation (progThinLine (wglp s)) ''uscale'') False
             [fround (js_mul (scaleX line) (gScaleX (wglp s))),
              Fin 0,
              Fin 0,
              fround (js_mul (js_mul (scaleY line) (gScaleY (wglp s))) (gXYratio (wglp s)))],
           GetUniformLocation (progThinLine (wglp s)) ''uoffset'',
           Uniform2fv (UniformLocation (progThinLine (wglp s)) ''uoffset'')
             [fround (js_add (offsetX line) (gOffsetX (wglp s))),
              fround (js_add (offsetY line) (gOffsetY (wglp s)))],
           GetUniformLocation (progThinLine (wglp s)) ''uColor'',
           Uniform4fv (UniformLocation (progThinLine (wglp s)) ''uColor'')
             [col_r (color line), col_g (color line), col_b (color line), col_a (color line)],
           BufferData ARRAY_BUFFER (xy line) STREAM_DRAW,
           DrawArrays (if loop line then LINE_LOOP else LINE_STRIP) 0 (webglNumPoints line)])
       (filter visible (map (heap s) (lines (wglp s)))))
   \<and> lines (wglp (addLine s ref)) = lines (wglp s) @ [ref]"
  (is "?after = ?before @ concat (map ?per_line ?visible) \<and> ?attached")
proof
  have "draw_calls (wglp s) = ?per_line"
    by (rule ext) (simp add: draw_calls_def Let_def Float32Array_of_def fround_zero
        del: fround.simps)
  then show "?after = ?before @ concat (map ?per_line ?visible)"
    by (simp only: update_gl_do calls_gl_do)
  show ?attached by (rule lines_addLine)
qed

text \<open>
  Claim C10. \<^verbatim>\<open>update\<close> leaves the store of lines as it was, and with it every line's
  buffer, scale, offset, color, \<^verbatim>\<open>loop\<close> and \<^verbatim>\<open>visible\<close>; the references in \<^verbatim>\<open>_lines\<close>
  and the global scale, ratio and offset of the plot are unchanged too.
\<close>

theorem update_changes_no_line:
  "heap (update s) = heap s
   \<and> lines (wglp (update s)) = lines (wglp s)
   \<and> gScaleX (wglp (update s)) = gScaleX (wglp s)
   \<and> gScaleY (wglp (update s)) = gScaleY (wglp s)
   \<and> gXYratio (wglp (update s)) = gXYratio (wglp s)
   \<and> gOffsetX (wglp (update s)) = gOffsetX (wglp s)
   \<and> gOffsetY (wglp (update s)) = gOffsetY (wglp s)"
  by (simp only: update_gl_do heap_gl_do plot_fields_gl_do simp_thms)

lemma lines_removeAllLines: "lines (wglp (removeAllLines s)) = []"
  by (simp add: removeAllLines_def)

text \<open>
  Claim C8. From any state, after \<^verbatim>\<open>addLine\<close> for any sequence of lines and then
  \<^verbatim>\<open>removeAllLines\<close>, \<^verbatim>\<open>_lines\<close> is empty, and \<^verbatim>\<open>update\<close> makes no call to the backend:
  it returns the state it was given.
\<close>

theorem detach_all_then_update:
  "lines (wglp (removeAllLines (foldl addLine s refs))) = []
   \<and> calls (webgl (wglp (update (removeAllLines (foldl addLine s refs)))))
       = calls (webgl (wglp (removeAllLines (foldl addLine s refs))))
   \<and> update (removeAllLines (foldl addLine s refs)) = removeAllLines (foldl addLine s refs)"
proof -
  let ?t = "removeAllLines (foldl addLine s refs)"
  have e: "lines (wglp ?t) = []" by (rule lines_removeAllLines)
  have u: "update ?t = ?t" by (simp add: update_def e)
  show ?thesis using e u by simp
qed

end
